theory Spec2Isabelle
  imports Main "HOL-Library.AList" "HOL-Library.Sublist" "HOL-Library.Multiset"
    "HOL-Library.Char_ord"
begin

section \<open>advanced\_scheduler.py: the two-track scheduler\<close>

text \<open>
  Slot identifiers and team names are Python strings. The two interview groups are the
  strings \<open>"A"\<close> and \<open>"B"\<close> of the source. A conflict reason is a message string in the
  source; the three messages that \<open>_analyze_conflict\<close> can build are the three
  constructors of \<open>reason\<close>. The second message ends with the joined entries
  \<open>unique_teams[:3]\<close>; each entry is the text \<open>f"{name}(A...)"\<close> or \<open>f"{name}(B...)"\<close>,
  which determines and is determined by the pair of the name and the group, so the
  entries are kept as such pairs and the list is kept unjoined.
\<close>

type_synonym slot = string
type_synonym tname = string

datatype group = GA | GB

datatype reason =
    NoAvailableSlots
  | AllSlotsOccupied "(tname \<times> group) list"
  | UnknownReason

record team =
  name :: tname
  available_slots :: "slot list"
  email :: string
  phone :: string
  assigned_slot :: "slot option"
  assigned_group :: "group option"
  conflict_reason :: "reason option"

record time_slot =
  date :: string
  time :: string
  full_slot :: slot
  group_a_team :: "tname option"
  group_b_team :: "tname option"

text \<open>
  The scheduler object. \<open>time_slots\<close> is a Python dict, which keeps its keys in
  insertion order: an association list. \<open>teams\<close> is a list of shared objects; a team
  object is identified by its position, and a mutation of the object is an update of the
  list at that position.
\<close>

record scheduler =
  all_slots :: "slot list"
  teams :: "team list"
  time_slots :: "(slot \<times> time_slot) list"

text \<open>Python truthiness of an optional string: \<open>None\<close> and \<open>""\<close> are false.\<close>

fun truthy :: "string option \<Rightarrow> bool" where
  "truthy None = False"
| "truthy (Some s) = (s \<noteq> [])"

definition is_full :: "time_slot \<Rightarrow> bool" where
  "is_full ts = (group_a_team ts \<noteq> None \<and> group_b_team ts \<noteq> None)"

definition has_space :: "time_slot \<Rightarrow> bool" where
  "has_space ts = (group_a_team ts = None \<or> group_b_team ts = None)"

definition get_available_group :: "time_slot \<Rightarrow> group option" where
  "get_available_group ts =
     (if group_a_team ts = None then Some GA
      else if group_b_team ts = None then Some GB
      else None)"

definition friday_times :: "string list" where
  "friday_times = [''19:00-19:45'', ''19:45-20:30'', ''20:30-21:15'', ''21:15-22:00'']"

definition saturday_times :: "string list" where
  "saturday_times =
     [''10:00-10:45'', ''10:45-11:30'', ''11:30-12:15'', ''12:15-13:00'',
      ''13:00-13:45'', ''13:45-14:30'', ''14:30-15:15'', ''15:15-16:00'',
      ''16:00-16:45'', ''16:45-17:30'', ''17:30-18:15'', ''18:15-19:00'',
      ''19:00-19:45'', ''19:45-20:30'', ''20:30-21:15'', ''21:15-22:00'']"

definition generate_all_slots :: "slot list" where
  "generate_all_slots =
     map (\<lambda>t. ''9/12 '' @ t) friday_times @
     map (\<lambda>t. ''9/13 '' @ t) saturday_times @
     map (\<lambda>t. ''9/14 '' @ t) saturday_times"

text \<open>
  \<open>slot.split(" ", 1)\<close> unpacked into two names: the text before the first space and the
  text after it; without a space the unpacking raises, which is \<open>None\<close> here.
\<close>

definition split_slot :: "slot \<Rightarrow> (string \<times> string) option" where
  "split_slot s =
     (if CHR '' '' \<in> set s
      then Some (takeWhile (\<lambda>c. c \<noteq> CHR '' '') s, tl (dropWhile (\<lambda>c. c \<noteq> CHR '' '') s))
      else None)"

fun initialize_time_slots ::
  "slot list \<Rightarrow> (slot \<times> time_slot) list \<Rightarrow> (slot \<times> time_slot) list option" where
  "initialize_time_slots [] acc = Some acc"
| "initialize_time_slots (slot # rest) acc =
     (case split_slot slot of
        None \<Rightarrow> None
      | Some (d, t) \<Rightarrow>
          initialize_time_slots rest
            (AList.update slot
               \<lparr>date = d, time = t, full_slot = slot,
                group_a_team = None, group_b_team = None\<rparr> acc))"

text \<open>\<open>__init__\<close>: \<open>None\<close> stands for an exception raised while the object is built.\<close>

definition new_scheduler :: "scheduler option" where
  "new_scheduler =
     (case initialize_time_slots generate_all_slots [] of
        None \<Rightarrow> None
      | Some ts \<Rightarrow> Some \<lparr>all_slots = generate_all_slots, teams = [], time_slots = ts\<rparr>)"

definition add_team :: "tname \<Rightarrow> slot list \<Rightarrow> string \<Rightarrow> string \<Rightarrow> scheduler \<Rightarrow> scheduler" where
  "add_team n slots e p st =
     st\<lparr>teams := teams st @
        [\<lparr>name = n, available_slots = slots, email = e, phone = p,
          assigned_slot = None, assigned_group = None, conflict_reason = None\<rparr>]\<rparr>"

definition schedule_dates :: "string list" where
  "schedule_dates = [''9/12'', ''9/13'', ''9/14'']"

definition get_continuous_slot_priority :: "scheduler \<Rightarrow> slot list" where
  "get_continuous_slot_priority st =
     concat (map (\<lambda>d. filter (prefix d) (all_slots st)) schedule_dates)"

subsection \<open>The conflict analyzer\<close>

text \<open>
  \<open>list(set(xs))\<close> lists the distinct elements of \<open>xs\<close> in an order the language does
  not fix. The order is a parameter of the model: a function from the list to the
  listing, of which only \<open>set_listing\<close> is known.
\<close>

definition set_listing :: "('a list \<Rightarrow> 'a list) \<Rightarrow> bool" where
  "set_listing so = (\<forall>xs. distinct (so xs) \<and> set (so xs) = set xs)"

fun all_full_scan :: "(slot \<times> time_slot) list \<Rightarrow> slot list \<Rightarrow> bool" where
  "all_full_scan tss [] = True"
| "all_full_scan tss (slot # rest) =
     (case map_of tss slot of
        None \<Rightarrow> all_full_scan tss rest
      | Some ts \<Rightarrow> if has_space ts then False else all_full_scan tss rest)"

fun conflicting_teams :: "(slot \<times> time_slot) list \<Rightarrow> slot list \<Rightarrow> (tname \<times> group) list" where
  "conflicting_teams tss [] = []"
| "conflicting_teams tss (slot # rest) =
     (case map_of tss slot of
        None \<Rightarrow> conflicting_teams tss rest
      | Some ts \<Rightarrow>
          (if truthy (group_a_team ts) then [(the (group_a_team ts), GA)] else []) @
          (if truthy (group_b_team ts) then [(the (group_b_team ts), GB)] else []) @
          conflicting_teams tss rest)"

definition analyze_conflict ::
  "((tname \<times> group) list \<Rightarrow> (tname \<times> group) list) \<Rightarrow> scheduler \<Rightarrow> team \<Rightarrow> reason" where
  "analyze_conflict so st t =
     (if available_slots t = [] then NoAvailableSlots
      else if all_full_scan (time_slots st) (available_slots t)
      then AllSlotsOccupied
             (take 3 (so (conflicting_teams (time_slots st) (available_slots t))))
      else UnknownReason)"

subsection \<open>The greedy engine: \<open>schedule_interviews_continuous\<close>\<close>

text \<open>
  The inner loop over \<open>slot_priority\<close> for the team object at position \<open>i\<close>. It returns the
  flag \<open>assigned\<close> and the state; \<open>None\<close> is the \<open>KeyError\<close> of \<open>self.time_slots[slot]\<close>.
\<close>

fun scan_slots :: "nat \<Rightarrow> slot list \<Rightarrow> scheduler \<Rightarrow> (bool \<times> scheduler) option" where
  "scan_slots i [] st = Some (False, st)"
| "scan_slots i (slot # rest) st =
     (if slot \<in> set (available_slots (teams st ! i)) then
        (case map_of (time_slots st) slot of
           None \<Rightarrow> None
         | Some ts \<Rightarrow>
             if has_space ts then
               (let g = get_available_group ts;
                    ts' = (if g = Some GA
                           then ts\<lparr>group_a_team := Some (name (teams st ! i))\<rparr>
                           else ts\<lparr>group_b_team := Some (name (teams st ! i))\<rparr>);
                    t' = (teams st ! i)\<lparr>assigned_slot := Some slot, assigned_group := g\<rparr>
                in Some (True, st\<lparr>time_slots := AList.update slot ts' (time_slots st),
                                  teams := (teams st)[i := t']\<rparr>))
             else scan_slots i rest st)
      else scan_slots i rest st)"

definition process_team ::
  "((tname \<times> group) list \<Rightarrow> (tname \<times> group) list) \<Rightarrow> slot list \<Rightarrow> nat \<Rightarrow>
     scheduler \<Rightarrow> scheduler option" where
  "process_team so slot_priority i st =
     (if truthy (assigned_slot (teams st ! i)) then Some st
      else
        (case scan_slots i slot_priority st of
           None \<Rightarrow> None
         | Some (assigned, st') \<Rightarrow>
             if \<not> assigned
             then Some (st'\<lparr>teams := (teams st')[i :=
                          (teams st' ! i)\<lparr>conflict_reason :=
                             Some (analyze_conflict so st' (teams st' ! i))\<rparr>]\<rparr>)
             else Some st'))"

fun process_teams ::
  "((tname \<times> group) list \<Rightarrow> (tname \<times> group) list) \<Rightarrow> slot list \<Rightarrow> nat list \<Rightarrow>
     scheduler \<Rightarrow> scheduler option" where
  "process_teams so slot_priority [] st = Some st"
| "process_teams so slot_priority (i # rest) st =
     (case process_team so slot_priority i st of
        None \<Rightarrow> None
      | Some st' \<Rightarrow> process_teams so slot_priority rest st')"

definition reset_time_slots :: "scheduler \<Rightarrow> scheduler" where
  "reset_time_slots st =
     st\<lparr>time_slots :=
          map (\<lambda>(k, ts). (k, ts\<lparr>group_a_team := None, group_b_team := None\<rparr>)) (time_slots st)\<rparr>"

definition reset_teams :: "scheduler \<Rightarrow> scheduler" where
  "reset_teams st =
     st\<lparr>teams :=
          map (\<lambda>t. t\<lparr>assigned_slot := None, assigned_group := None, conflict_reason := None\<rparr>)
            (teams st)\<rparr>"

text \<open>
  \<open>sorted(self.teams, key=...)\<close> is a stable sort of the object references: the positions
  of the team objects, sorted by the length of the availability list.
\<close>

definition sorted_teams :: "scheduler \<Rightarrow> nat list" where
  "sorted_teams st =
     sort_key (\<lambda>i. length (available_slots (teams st ! i))) [0..<length (teams st)]"

type_synonym group_schedule = "(slot \<times> tname) list \<times> (slot \<times> tname) list"

definition get_schedule_by_group :: "scheduler \<Rightarrow> group_schedule" where
  "get_schedule_by_group st =
     (map (\<lambda>(k, ts). (k, the (group_a_team ts)))
        (filter (\<lambda>(k, ts). truthy (group_a_team ts)) (time_slots st)),
      map (\<lambda>(k, ts). (k, the (group_b_team ts)))
        (filter (\<lambda>(k, ts). truthy (group_b_team ts)) (time_slots st)))"

definition run_continuous ::
  "((tname \<times> group) list \<Rightarrow> (tname \<times> group) list) \<Rightarrow> scheduler \<Rightarrow> scheduler option" where
  "run_continuous so st =
     (let st1 = reset_teams (reset_time_slots st)
      in process_teams so (get_continuous_slot_priority st1) (sorted_teams st1) st1)"

definition schedule_interviews_continuous ::
  "((tname \<times> group) list \<Rightarrow> (tname \<times> group) list) \<Rightarrow> scheduler \<Rightarrow>
     (group_schedule \<times> scheduler) option" where
  "schedule_interviews_continuous so st =
     (case run_continuous so st of
        None \<Rightarrow> None
      | Some st' \<Rightarrow> Some (get_schedule_by_group st', st'))"

subsection \<open>The gap score\<close>

fun gap_scan :: "scheduler \<Rightarrow> group \<Rightarrow> slot list \<Rightarrow> bool \<Rightarrow> nat \<Rightarrow> nat option" where
  "gap_scan st g [] in_session gap_score = Some gap_score"
| "gap_scan st g (slot # rest) in_session gap_score =
     (case map_of (time_slots st) slot of
        None \<Rightarrow> None
      | Some ts \<Rightarrow>
          (let has_team = (if g = GA then group_a_team ts \<noteq> None else group_b_team ts \<noteq> None)
           in if has_team then gap_scan st g rest True gap_score
              else if in_session then gap_scan st g rest in_session (gap_score + 1)
              else gap_scan st g rest in_session gap_score))"

fun gap_dates :: "scheduler \<Rightarrow> group \<Rightarrow> string list \<Rightarrow> nat \<Rightarrow> nat option" where
  "gap_dates st g [] gap_score = Some gap_score"
| "gap_dates st g (d # rest) gap_score =
     (case gap_scan st g (filter (prefix d) (all_slots st)) False gap_score of
        None \<Rightarrow> None
      | Some gap_score' \<Rightarrow> gap_dates st g rest gap_score')"

fun gap_groups :: "scheduler \<Rightarrow> group list \<Rightarrow> nat \<Rightarrow> nat option" where
  "gap_groups st [] gap_score = Some gap_score"
| "gap_groups st (g # rest) gap_score =
     (case gap_dates st g schedule_dates gap_score of
        None \<Rightarrow> None
      | Some gap_score' \<Rightarrow> gap_groups st rest gap_score')"

definition calculate_gap_score :: "scheduler \<Rightarrow> nat option" where
  "calculate_gap_score st = gap_groups st [GA, GB] 0"


subsection \<open>The randomized-restart optimizer: \<open>optimize_schedule\<close>\<close>

text \<open>
  The local variables of \<open>optimize_schedule\<close>. \<open>best_schedule\<close> starts as the empty dict
  \<open>{}\<close>, which has neither key \<open>"A"\<close> nor key \<open>"B"\<close>: \<open>None\<close>. \<open>best_gap_score\<close> starts as
  \<open>float('inf')\<close>: \<open>None\<close>.
\<close>

type_synonym team_assignment = "tname \<times> slot option \<times> group option \<times> reason option"

record best =
  best_schedule :: "group_schedule option"
  best_count :: nat
  best_gap_score :: "nat option"
  best_team_assignments :: "team_assignment list"

definition initial_best :: best where
  "initial_best =
     \<lparr>best_schedule = None, best_count = 0, best_gap_score = None, best_team_assignments = []\<rparr>"

fun less_gap :: "nat \<Rightarrow> nat option \<Rightarrow> bool" where
  "less_gap g None = True"
| "less_gap g (Some b) = (g < b)"

definition team_assignment_of :: "team \<Rightarrow> team_assignment" where
  "team_assignment_of t = (name t, assigned_slot t, assigned_group t, conflict_reason t)"

text \<open>
  \<open>random.shuffle(self.teams)\<close> permutes the list in place. The permutation drawn in
  iteration \<open>k\<close> is the parameter \<open>shuffle k\<close>, of which only \<open>shuffles\<close> is known.
\<close>

definition shuffles :: "(nat \<Rightarrow> team list \<Rightarrow> team list) \<Rightarrow> bool" where
  "shuffles shuffle = (\<forall>k xs. mset (shuffle k xs) = mset xs)"

fun optimize_loop ::
  "(nat \<Rightarrow> team list \<Rightarrow> team list) \<Rightarrow> ((tname \<times> group) list \<Rightarrow> (tname \<times> group) list) \<Rightarrow>
     nat list \<Rightarrow> scheduler \<Rightarrow> best \<Rightarrow> (scheduler \<times> best) option" where
  "optimize_loop shuffle so [] st b = Some (st, b)"
| "optimize_loop shuffle so (iteration # rest) st b =
     (case schedule_interviews_continuous so (st\<lparr>teams := shuffle iteration (teams st)\<rparr>) of
        None \<Rightarrow> None
      | Some (schedule, st') \<Rightarrow>
          (let assigned_count = length (filter (\<lambda>t. truthy (assigned_slot t)) (teams st'))
           in case calculate_gap_score st' of
                None \<Rightarrow> None
              | Some gap_score \<Rightarrow>
                  if assigned_count > best_count b \<or>
                     (assigned_count = best_count b \<and> less_gap gap_score (best_gap_score b))
                  then
                    (let b' = \<lparr>best_schedule = Some schedule,
                               best_count = assigned_count,
                               best_gap_score = Some gap_score,
                               best_team_assignments = map team_assignment_of (teams st')\<rparr>
                     in if assigned_count = length (teams st') \<and> gap_score = 0
                        then Some (st', b')
                        else optimize_loop shuffle so rest st' b')
                  else optimize_loop shuffle so rest st' b))"

text \<open>
  \<open>self.time_slots[slot].group_a_team = team_name\<close> for every item of a group's dict;
  \<open>None\<close> is the \<open>KeyError\<close> of an unknown slot.
\<close>

fun restore_group :: "group \<Rightarrow> (slot \<times> tname) list \<Rightarrow> (slot \<times> time_slot) list \<Rightarrow>
    (slot \<times> time_slot) list option" where
  "restore_group g [] tss = Some tss"
| "restore_group g ((slot, n) # rest) tss =
     (case map_of tss slot of
        None \<Rightarrow> None
      | Some ts \<Rightarrow>
          restore_group g rest
            (AList.update slot
               (if g = GA then ts\<lparr>group_a_team := Some n\<rparr> else ts\<lparr>group_b_team := Some n\<rparr>) tss))"

fun restore_team :: "team_assignment list \<Rightarrow> team \<Rightarrow> team" where
  "restore_team [] t = t"
| "restore_team ((n, s, g, r) # rest) t =
     (if name t = n
      then t\<lparr>assigned_slot := s, assigned_group := g, conflict_reason := r\<rparr>
      else restore_team rest t)"

definition restore_best :: "scheduler \<Rightarrow> best \<Rightarrow> scheduler option" where
  "restore_best st b =
     (if best_team_assignments b \<noteq> [] then
        (case best_schedule b of
           None \<Rightarrow> None
         | Some (sched_a, sched_b) \<Rightarrow>
             (case restore_group GA sched_a (time_slots (reset_time_slots st)) of
                None \<Rightarrow> None
              | Some tss_a \<Rightarrow>
                  (case restore_group GB sched_b tss_a of
                     None \<Rightarrow> None
                   | Some tss_b \<Rightarrow>
                       Some (st\<lparr>time_slots := tss_b,
                                teams := map (restore_team (best_team_assignments b)) (teams st)\<rparr>))))
      else Some st)"

definition optimize_schedule ::
  "(nat \<Rightarrow> team list \<Rightarrow> team list) \<Rightarrow> ((tname \<times> group) list \<Rightarrow> (tname \<times> group) list) \<Rightarrow>
     nat \<Rightarrow> scheduler \<Rightarrow> (group_schedule option \<times> scheduler) option" where
  "optimize_schedule shuffle so max_iterations st =
     (case optimize_loop shuffle so [0..<max_iterations] st initial_best of
        None \<Rightarrow> None
      | Some (st', b) \<Rightarrow>
          (case restore_best st' b of
             None \<Rightarrow> None
           | Some st'' \<Rightarrow> Some (best_schedule b, st'')))"

section \<open>schedule\_optimizer.py: the one-track scheduler\<close>

text \<open>
  The module has a \<open>Team\<close> and an \<open>InterviewScheduler\<close> class of its own; their fields carry
  the prefix \<open>o\<close> here. \<open>schedule\<close> is the dict from a slot to the name of its team.
\<close>

record oteam =
  oname :: tname
  oavailable_slots :: "slot list"
  oemail :: string
  ophone :: string
  oassigned_slot :: "slot option"

record oscheduler =
  oall_slots :: "slot list"
  oteams :: "oteam list"
  oschedule :: "(slot \<times> tname) list"

definition new_oscheduler :: oscheduler where
  "new_oscheduler = \<lparr>oall_slots = generate_all_slots, oteams = [], oschedule = []\<rparr>"

definition oadd_team :: "tname \<Rightarrow> slot list \<Rightarrow> string \<Rightarrow> string \<Rightarrow> oscheduler \<Rightarrow> oscheduler" where
  "oadd_team n slots e p st =
     st\<lparr>oteams := oteams st @
        [\<lparr>oname = n, oavailable_slots = slots, oemail = e, ophone = p, oassigned_slot = None\<rparr>]\<rparr>"

text \<open>The inner loop of \<open>_greedy_scheduling\<close> for the team object at position \<open>i\<close>.\<close>

fun greedy_slots :: "nat \<Rightarrow> slot list \<Rightarrow> oscheduler \<Rightarrow> oscheduler" where
  "greedy_slots i [] st = st"
| "greedy_slots i (slot # rest) st =
     (if slot \<notin> fst ` set (oschedule st)
      then st\<lparr>oschedule := AList.update slot (oname (oteams st ! i)) (oschedule st),
              oteams := (oteams st)[i := (oteams st ! i)\<lparr>oassigned_slot := Some slot\<rparr>]\<rparr>
      else greedy_slots i rest st)"

fun greedy_teams :: "nat list \<Rightarrow> oscheduler \<Rightarrow> oscheduler" where
  "greedy_teams [] st = st"
| "greedy_teams (i # rest) st =
     greedy_teams rest (greedy_slots i (oavailable_slots (oteams st ! i)) st)"

definition osorted_teams :: "oscheduler \<Rightarrow> nat list" where
  "osorted_teams st =
     sort_key (\<lambda>i. length (oavailable_slots (oteams st ! i))) [0..<length (oteams st)]"

definition greedy_scheduling :: "oscheduler \<Rightarrow> (slot \<times> tname) list \<times> oscheduler" where
  "greedy_scheduling st =
     (let st' = greedy_teams (osorted_teams st) (st\<lparr>oschedule := []\<rparr>)
      in (oschedule st', st'))"

text \<open>
  The nested function \<open>backtrack\<close> of \<open>_backtrack_scheduling\<close>. Its state is the scheduler
  and the set \<open>assigned_teams\<close>; the result is the returned flag and the state left behind.
  \<open>None\<close> is a \<open>KeyError\<close> of \<open>del self.schedule[slot]\<close> or of \<open>assigned_teams.remove\<close>.
  \<open>try_slots\<close> is the loop over the slots of the team at position \<open>i\<close>; \<open>next_team\<close> is the
  recursive call \<open>backtrack(team_idx + 1)\<close>.
\<close>

type_synonym bt_state = "oscheduler \<times> tname set"

fun try_slots ::
  "(bt_state \<Rightarrow> (bool \<times> bt_state) option) \<Rightarrow> nat \<Rightarrow> slot list \<Rightarrow> bt_state \<Rightarrow>
     (bool \<times> bt_state) option" where
  "try_slots next_team i [] (st, assigned_teams) = Some (False, st, assigned_teams)"
| "try_slots next_team i (slot # rest) (st, assigned_teams) =
     (if slot \<notin> fst ` set (oschedule st) then
        (case next_team
                (st\<lparr>oschedule := AList.update slot (oname (oteams st ! i)) (oschedule st),
                    oteams := (oteams st)[i := (oteams st ! i)\<lparr>oassigned_slot := Some slot\<rparr>]\<rparr>,
                 insert (oname (oteams st ! i)) assigned_teams) of
           None \<Rightarrow> None
         | Some (True, st', assigned') \<Rightarrow> Some (True, st', assigned')
         | Some (False, st', assigned') \<Rightarrow>
             if slot \<notin> fst ` set (oschedule st') then None
             else if oname (oteams st ! i) \<notin> assigned' then None
             else try_slots next_team i rest
                    (st'\<lparr>oschedule := AList.delete slot (oschedule st'),
                         oteams := (oteams st')[i := (oteams st' ! i)\<lparr>oassigned_slot := None\<rparr>]\<rparr>,
                     assigned' - {oname (oteams st ! i)}))
      else try_slots next_team i rest (st, assigned_teams))"

primrec backtrack :: "nat list \<Rightarrow> bt_state \<Rightarrow> (bool \<times> bt_state) option" where
  "backtrack [] = (\<lambda>s. Some (True, s))"
| "backtrack (team_idx # later) =
     (\<lambda>s. if oname (oteams (fst s) ! team_idx) \<in> snd s
          then backtrack later s
          else try_slots (backtrack later) team_idx
                 (oavailable_slots (oteams (fst s) ! team_idx)) s)"

text \<open>
  \<open>_backtrack_scheduling\<close>: \<open>self.teams.sort(key=...)\<close> sorts the list in place (a stable
  sort); the recursion starts at index 0 and runs to \<open>len(self.teams)\<close>. The first
  component of the result tells whether the search succeeded (\<open>True\<close>) or the greedy
  engine was called instead.
\<close>

definition backtrack_start :: "oscheduler \<Rightarrow> bt_state" where
  "backtrack_start st =
     (st\<lparr>oschedule := [],
         oteams := sort_key (\<lambda>t. length (oavailable_slots t)) (oteams st)\<rparr>, {})"

definition backtrack_scheduling :: "oscheduler \<Rightarrow> ((slot \<times> tname) list \<times> oscheduler) option" where
  "backtrack_scheduling st =
     (case backtrack [0..<length (oteams (fst (backtrack_start st)))] (backtrack_start st) of
        None \<Rightarrow> None
      | Some (True, st', assigned') \<Rightarrow> Some (oschedule st', st')
      | Some (False, st', assigned') \<Rightarrow> Some (greedy_scheduling st'))"

section \<open>core/scheduler\_engine.py: the constraint model of the exact solver\<close>

text \<open>
  Of \<open>core.models.Team\<close> the engine reads \<open>team_id\<close>, \<open>team_name\<close> and \<open>time_preferences\<close>; of
  an \<open>InterviewSlot\<close> it reads \<open>slot_id\<close>, the times and the group (the room and the link are
  carried along unread and are left out). The dicts of an \<open>InterviewConstraint\<close> are
  association lists.
\<close>

datatype interview_group = Group_A | Group_B

record core_team =
  team_id :: string
  team_name :: string
  time_preferences :: "string list"

record interview_slot =
  slot_id :: string
  slot_date :: string
  start_time :: string
  end_time :: string
  slot_group :: interview_group

record interview_constraint =
  interviewer_avoidance :: "(string \<times> string list) list"
  interviewer_groups :: "(string \<times> string) list"

record schedule =
  schedule_team :: core_team
  schedule_slot :: interview_slot
  preference_rank :: nat

datatype optimization_strategy =
    FIRST_PREFERENCE
  | TIME_DISTRIBUTION
  | MORNING_AFTERNOON_BALANCE
  | GROUP_BALANCE
  | INTERVIEWER_CONSTRAINTS

record scheduling_option =
  option_name :: nat
  strategy_type :: optimization_strategy
  schedules :: "schedule list"

subsection \<open>The default time slots\<close>

function decimal :: "nat \<Rightarrow> string" where
  "decimal n =
     (if n < 10 then [char_of (48 + n)] else decimal (n div 10) @ [char_of (48 + n mod 10)])"
  by pat_completeness auto
termination
  by (relation "measure (\<lambda>n. n)") auto

text \<open>The format \<open>{h:02d}\<close>: at least two digits, padded with a zero.\<close>

definition two_digits :: "nat \<Rightarrow> string" where
  "two_digits n = (if n < 10 then CHR ''0'' # decimal n else decimal n)"

definition clock :: "nat \<Rightarrow> string" where
  "clock minutes = two_digits (minutes div 60) @ '':'' @ two_digits (minutes mod 60)"

text \<open>
  The \<open>while current_time < end_time\<close> loop of \<open>_generate_default_time_slots\<close>. Every slot
  object draws a fresh identifier (eight characters of a random UUID) and the dates come
  from the clock: the identifier of the \<open>k\<close>-th slot built is the parameter \<open>fresh k\<close>, the
  date of day \<open>d\<close> the parameter \<open>day d\<close>. The loop returns the slots and the number of
  identifiers drawn so far.
\<close>

function time_loop ::
  "(nat \<Rightarrow> string) \<Rightarrow> string \<Rightarrow> nat \<Rightarrow> nat \<Rightarrow> nat \<Rightarrow> interview_slot list \<times> nat" where
  "time_loop fresh d current_time end_minutes k =
     (if current_time < end_minutes then
        (let mk = (\<lambda>j g. \<lparr>slot_id = fresh j, slot_date = d,
                           start_time = clock current_time,
                           end_time = clock (current_time + 30), slot_group = g\<rparr>);
             (more, k') = time_loop fresh d (current_time + 30) end_minutes (k + 2)
         in (mk k Group_A # mk (k + 1) Group_B # more, k'))
      else ([], k))"
  by pat_completeness auto
termination
  by (relation "measure (\<lambda>(fresh, d, current_time, end_minutes, k). end_minutes - current_time)") auto

fun range_loop ::
  "(nat \<Rightarrow> string) \<Rightarrow> string \<Rightarrow> (nat \<times> nat) list \<Rightarrow> nat \<Rightarrow> interview_slot list \<times> nat" where
  "range_loop fresh d [] k = ([], k)"
| "range_loop fresh d ((start_hour, end_hour) # rest) k =
     (let (slots, k') = time_loop fresh d (start_hour * 60) (end_hour * 60) k;
          (more, k'') = range_loop fresh d rest k'
      in (slots @ more, k''))"

fun day_loop ::
  "(nat \<Rightarrow> string) \<Rightarrow> (nat \<Rightarrow> string) \<Rightarrow> nat list \<Rightarrow> nat \<Rightarrow> interview_slot list" where
  "day_loop fresh day [] k = []"
| "day_loop fresh day (day_offset # rest) k =
     (let (slots, k') = range_loop fresh (day day_offset) [(9, 12), (14, 18)] k
      in slots @ day_loop fresh day rest k')"

definition generate_default_time_slots ::
  "(nat \<Rightarrow> string) \<Rightarrow> (nat \<Rightarrow> string) \<Rightarrow> interview_slot list" where
  "generate_default_time_slots fresh day = day_loop fresh day [0..<3] 0"

subsection \<open>Variables and constraints\<close>

text \<open>
  \<open>_create_variables\<close> fills three dicts with Boolean variables of the CP-SAT model. A
  variable is reached only through its key, so a solution of the model is a value for
  every key. \<open>schedule_keys\<close>, \<open>preference_keys\<close> and \<open>group_keys\<close> are the keys of the three
  dicts.
\<close>

type_synonym schedule_key = "string \<times> string \<times> interview_group"

record solution =
  schedule_value :: "schedule_key \<Rightarrow> bool"
  preference_value :: "string \<times> nat \<Rightarrow> bool"
  group_value :: "string \<times> interview_group \<Rightarrow> bool"

definition schedule_keys :: "core_team list \<Rightarrow> interview_slot list \<Rightarrow> schedule_key list" where
  "schedule_keys ts slots =
     concat (map (\<lambda>t. concat (map (\<lambda>s. map (\<lambda>g. (team_id t, slot_id s, g)) [Group_A, Group_B]) slots)) ts)"

definition preference_keys :: "core_team list \<Rightarrow> (string \<times> nat) list" where
  "preference_keys ts = concat (map (\<lambda>t. map (\<lambda>rank. (team_id t, rank)) [1..<4]) ts)"

definition group_keys :: "core_team list \<Rightarrow> (string \<times> interview_group) list" where
  "group_keys ts = concat (map (\<lambda>t. map (\<lambda>g. (team_id t, g)) [Group_A, Group_B]) ts)"

text \<open>The sum of a list of Boolean variables: the number of them that are 1.\<close>

definition sum_vars :: "('k \<Rightarrow> bool) \<Rightarrow> 'k list \<Rightarrow> nat" where
  "sum_vars v ks = length (filter v ks)"

text \<open>Constraint 1 of \<open>_add_basic_constraints\<close>: every team in exactly one slot and group.\<close>

definition team_once :: "core_team list \<Rightarrow> interview_slot list \<Rightarrow> solution \<Rightarrow> bool" where
  "team_once ts slots v =
     list_all
       (\<lambda>t. let schedule_sum =
                  filter (\<lambda>k. k \<in> set (schedule_keys ts slots))
                    (concat (map (\<lambda>s. map (\<lambda>g. (team_id t, slot_id s, g)) [Group_A, Group_B]) slots))
            in if schedule_sum \<noteq> [] then sum_vars (schedule_value v) schedule_sum = 1 else True)
       ts"

text \<open>Constraint 2: at most one team for every slot and group.\<close>

definition slot_at_most_one :: "core_team list \<Rightarrow> interview_slot list \<Rightarrow> solution \<Rightarrow> bool" where
  "slot_at_most_one ts slots v =
     list_all
       (\<lambda>s. list_all
          (\<lambda>g. let slot_vars =
                     filter (\<lambda>k. k \<in> set (schedule_keys ts slots))
                       (map (\<lambda>t. (team_id t, slot_id s, g)) ts)
               in if slot_vars \<noteq> [] then sum_vars (schedule_value v) slot_vars \<le> 1 else True)
          [Group_A, Group_B])
       slots"

text \<open>
  Constraint 3: the group variable of a team equals the sum of its schedule variables of
  that group over the slots whose own group it is.
\<close>

definition group_consistent :: "core_team list \<Rightarrow> interview_slot list \<Rightarrow> solution \<Rightarrow> bool" where
  "group_consistent ts slots v =
     list_all
       (\<lambda>t. list_all
          (\<lambda>g. if (team_id t, g) \<notin> set (group_keys ts) then True
               else
                 (let group_schedule_vars =
                        filter (\<lambda>k. k \<in> set (schedule_keys ts slots))
                          (map (\<lambda>s. (team_id t, slot_id s, g)) (filter (\<lambda>s. slot_group s = g) slots))
                  in if group_schedule_vars \<noteq> []
                     then sum_vars (schedule_value v) group_schedule_vars =
                          (if group_value v (team_id t, g) then 1 else 0)
                     else True))
          [Group_A, Group_B])
       ts"

text \<open>
  Constraint 4 links a preference variable to the slots that \<open>_find_matching_slots\<close> returns
  for the preference text. That function parses the text with the string and integer
  routines of the language; it is the parameter \<open>find_matching_slots\<close> here.
\<close>

definition preference_linked ::
  "(string \<Rightarrow> interview_slot list) \<Rightarrow> core_team list \<Rightarrow> interview_slot list \<Rightarrow> solution \<Rightarrow> bool" where
  "preference_linked find_matching_slots ts slots v =
     list_all
       (\<lambda>t. list_all
          (\<lambda>(rank, time_pref).
             let matching_slots = find_matching_slots time_pref
             in if matching_slots \<noteq> [] \<and> (team_id t, rank) \<in> set (preference_keys ts)
                then
                  (let matching_schedule_vars =
                         filter (\<lambda>k. k \<in> set (schedule_keys ts slots))
                           (concat (map (\<lambda>s. map (\<lambda>g. (team_id t, slot_id s, g)) [Group_A, Group_B])
                              matching_slots))
                   in if matching_schedule_vars \<noteq> []
                      then (if preference_value v (team_id t, rank) then 1 else 0)
                           \<le> sum_vars (schedule_value v) matching_schedule_vars
                      else True)
                else True)
          (zip [1..<Suc (length (take 3 (time_preferences t)))] (take 3 (time_preferences t))))
       ts"

text \<open>
  \<open>_add_interviewer_constraints\<close>: for every interviewer with a group, the group variable of
  each avoided team that is among the teams is 0.
\<close>

definition group_of_text :: "string \<Rightarrow> interview_group" where
  "group_of_text interviewer_group = (if interviewer_group = ''A'' then Group_A else Group_B)"

definition avoidance_respected :: "core_team list \<Rightarrow> interview_constraint \<Rightarrow> solution \<Rightarrow> bool" where
  "avoidance_respected ts constraints v =
     list_all
       (\<lambda>(interviewer_id, avoided_teams).
          case map_of (interviewer_groups constraints) interviewer_id of
            None \<Rightarrow> True
          | Some interviewer_group \<Rightarrow>
              if interviewer_group = [] then True
              else
                list_all
                  (\<lambda>tid. case find (\<lambda>t. team_id t = tid) ts of
                           None \<Rightarrow> True
                         | Some t \<Rightarrow>
                             if (team_id t, group_of_text interviewer_group) \<in> set (group_keys ts)
                             then \<not> group_value v (team_id t, group_of_text interviewer_group)
                             else True)
                  avoided_teams)
       (interviewer_avoidance constraints)"

definition hard_constraints ::
  "(string \<Rightarrow> interview_slot list) \<Rightarrow> core_team list \<Rightarrow> interview_slot list \<Rightarrow>
     interview_constraint \<Rightarrow> solution \<Rightarrow> bool" where
  "hard_constraints find_matching_slots ts slots constraints v =
     (team_once ts slots v \<and> slot_at_most_one ts slots v \<and> group_consistent ts slots v \<and>
      preference_linked find_matching_slots ts slots v \<and> avoidance_respected ts constraints v)"

text \<open>
  The objectives of \<open>_set_first_preference_objective\<close> and
  \<open>_set_interviewer_constraint_objective\<close>, both maximized: weighted sums of the preference
  variables.
\<close>

definition preference_objective :: "nat \<Rightarrow> nat \<Rightarrow> nat \<Rightarrow> core_team list \<Rightarrow> solution \<Rightarrow> nat" where
  "preference_objective w1 w2 w3 ts v =
     sum_list (map (\<lambda>t.
        (if (team_id t, 1) \<in> set (preference_keys ts) \<and> preference_value v (team_id t, 1) then w1 else 0) +
        (if (team_id t, 2) \<in> set (preference_keys ts) \<and> preference_value v (team_id t, 2) then w2 else 0) +
        (if (team_id t, 3) \<in> set (preference_keys ts) \<and> preference_value v (team_id t, 3) then w3 else 0)) ts)"

definition first_preference_objective :: "core_team list \<Rightarrow> solution \<Rightarrow> nat" where
  "first_preference_objective = preference_objective 100 50 25"

definition interviewer_constraint_objective :: "core_team list \<Rightarrow> solution \<Rightarrow> nat" where
  "interviewer_constraint_objective = preference_objective 10 5 1"

subsection \<open>Reading the solution and building the options\<close>

text \<open>
  \<open>_extract_solution\<close>: the first slot, in the order of \<open>self.time_slots\<close>, one of whose two
  variables of the team has the value 1 becomes the \<open>interview_slot\<close> of the team's schedule;
  the group of the variable is not recorded. A team without such a slot gets no schedule.
\<close>

definition extract_rank :: "core_team list \<Rightarrow> solution \<Rightarrow> core_team \<Rightarrow> nat" where
  "extract_rank ts v t =
     (case find (\<lambda>rank. (team_id t, rank) \<in> set (preference_keys ts) \<and>
                        preference_value v (team_id t, rank)) [1..<4] of
        None \<Rightarrow> 0
      | Some rank \<Rightarrow> rank)"

definition slot_chosen ::
  "core_team list \<Rightarrow> interview_slot list \<Rightarrow> solution \<Rightarrow> core_team \<Rightarrow> interview_slot \<Rightarrow> bool" where
  "slot_chosen ts slots v t s =
     list_ex (\<lambda>g. (team_id t, slot_id s, g) \<in> set (schedule_keys ts slots) \<and>
                  schedule_value v (team_id t, slot_id s, g)) [Group_A, Group_B]"

definition extract_solution ::
  "core_team list \<Rightarrow> interview_slot list \<Rightarrow> solution \<Rightarrow> schedule list" where
  "extract_solution ts slots v =
     concat (map (\<lambda>t. case find (slot_chosen ts slots v t) slots of
                        None \<Rightarrow> []
                      | Some s \<Rightarrow> [\<lparr>schedule_team = t, schedule_slot = s,
                                    preference_rank = extract_rank ts v t\<rparr>]) ts)"

text \<open>
  The solver is the CP-SAT library. One call returns a status and, for the statuses
  \<open>OPTIMAL\<close> and \<open>FEASIBLE\<close>, a solution of the model; \<open>solve\<close> is this result, strategy by
  strategy.
\<close>

datatype solver_status = OPTIMAL | FEASIBLE | INFEASIBLE | MODEL_INVALID | UNKNOWN

definition generate_single_option ::
  "core_team list \<Rightarrow> interview_slot list \<Rightarrow> optimization_strategy \<Rightarrow> nat \<Rightarrow>
     solver_status \<times> solution \<Rightarrow> scheduling_option option" where
  "generate_single_option ts slots strategy number result =
     (if fst result = OPTIMAL \<or> fst result = FEASIBLE
      then Some \<lparr>option_name = number, strategy_type = strategy,
                 schedules = extract_solution ts slots (snd result)\<rparr>
      else None)"

definition strategies :: "(optimization_strategy \<times> nat) list" where
  "strategies =
     [(FIRST_PREFERENCE, 1), (TIME_DISTRIBUTION, 2), (MORNING_AFTERNOON_BALANCE, 3),
      (GROUP_BALANCE, 4), (INTERVIEWER_CONSTRAINTS, 5)]"

text \<open>
  The loop of \<open>generate_five_options\<close>. When \<open>_generate_single_option\<close> returns \<open>None\<close>, the
  assignment to \<open>option.generation_time\<close> raises, the \<open>except\<close> clause logs the error and the
  loop continues; an option without schedules is logged as failed; in both cases nothing is
  appended. The option names are the texts "option 1" to "option 5", kept as their numbers;
  the generation time and the satisfaction metrics are floating-point fields and are left
  out.
\<close>

fun options_loop ::
  "core_team list \<Rightarrow> interview_slot list \<Rightarrow> (optimization_strategy \<Rightarrow> solver_status \<times> solution) \<Rightarrow>
     (optimization_strategy \<times> nat) list \<Rightarrow> scheduling_option list \<Rightarrow> scheduling_option list" where
  "options_loop ts slots solve [] options = options"
| "options_loop ts slots solve ((strategy, number) # rest) options =
     (case generate_single_option ts slots strategy number (solve strategy) of
        None \<Rightarrow> options_loop ts slots solve rest options
      | Some opt \<Rightarrow>
          if schedules opt \<noteq> []
          then options_loop ts slots solve rest (options @ [opt])
          else options_loop ts slots solve rest options)"

datatype engine_error = ValueError

definition generate_five_options ::
  "core_team list \<Rightarrow> interview_slot list \<Rightarrow> (optimization_strategy \<Rightarrow> solver_status \<times> solution) \<Rightarrow>
     engine_error + scheduling_option list" where
  "generate_five_options ts slots solve =
     (if ts = [] then Inl ValueError else Inr (options_loop ts slots solve strategies []))"

text \<open>
  The second check of \<open>validate_solution\<close>: a schedule whose (slot id, group of the slot) is
  already taken by an earlier schedule is reported as a time-slot conflict. The issues are
  message texts built from the key; the keys are kept. (The third check compares
  floating-point ratios and is left out.)
\<close>

fun conflict_scan ::
  "schedule list \<Rightarrow> ((string \<times> interview_group) \<times> string) list \<Rightarrow> (string \<times> interview_group) list" where
  "conflict_scan [] slot_assignments = []"
| "conflict_scan (sch # rest) slot_assignments =
     (let key = (slot_id (schedule_slot sch), slot_group (schedule_slot sch))
      in if key \<in> fst ` set slot_assignments
         then key # conflict_scan rest slot_assignments
         else conflict_scan rest
                (AList.update key (team_id (schedule_team sch)) slot_assignments))"

definition slot_conflicts :: "schedule list \<Rightarrow> (string \<times> interview_group) list" where
  "slot_conflicts schs = conflict_scan schs []"

section \<open>Notions of the specification\<close>

subsection \<open>The two-track scheduler\<close>

text \<open>
  A scheduler as \<open>__init__\<close> builds it and as every method leaves it: the slot universe is
  the generated one and the keys of \<open>time_slots\<close> are the slots of the universe, in order.
\<close>

definition wf_scheduler :: "scheduler \<Rightarrow> bool" where
  "wf_scheduler st =
     (all_slots st = generate_all_slots \<and> map fst (time_slots st) = all_slots st)"

text \<open>The team that holds a (slot, track) pair of the assignment.\<close>

definition occupant :: "scheduler \<Rightarrow> slot \<Rightarrow> group \<Rightarrow> tname option" where
  "occupant st slot g =
     (case map_of (time_slots st) slot of
        None \<Rightarrow> None
      | Some ts \<Rightarrow> (case g of GA \<Rightarrow> group_a_team ts | GB \<Rightarrow> group_b_team ts))"

definition slot_has_space :: "scheduler \<Rightarrow> slot \<Rightarrow> bool" where
  "slot_has_space st slot =
     (case map_of (time_slots st) slot of None \<Rightarrow> False | Some ts \<Rightarrow> has_space ts)"

text \<open>
  The greedy step in the words of the specification: the first slot of the universe that
  is in the team's availability and has a free track; the team takes track A when it is
  free and track B otherwise; a team without such a slot stays unassigned and receives
  its conflict reason.
\<close>

definition first_free_slot :: "scheduler \<Rightarrow> team \<Rightarrow> slot option" where
  "first_free_slot st t =
     find (\<lambda>slot. slot \<in> set (available_slots t) \<and> slot_has_space st slot) (all_slots st)"

definition occupy :: "scheduler \<Rightarrow> nat \<Rightarrow> slot \<Rightarrow> scheduler" where
  "occupy st i slot =
     (case map_of (time_slots st) slot of
        None \<Rightarrow> st
      | Some ts \<Rightarrow>
          if group_a_team ts = None
          then st\<lparr>time_slots :=
                    AList.update slot (ts\<lparr>group_a_team := Some (name (teams st ! i))\<rparr>) (time_slots st),
                  teams := (teams st)[i :=
                    (teams st ! i)\<lparr>assigned_slot := Some slot, assigned_group := Some GA\<rparr>]\<rparr>
          else st\<lparr>time_slots :=
                    AList.update slot (ts\<lparr>group_b_team := Some (name (teams st ! i))\<rparr>) (time_slots st),
                  teams := (teams st)[i :=
                    (teams st ! i)\<lparr>assigned_slot := Some slot, assigned_group := Some GB\<rparr>]\<rparr>)"

definition leave_unassigned ::
  "((tname \<times> group) list \<Rightarrow> (tname \<times> group) list) \<Rightarrow> scheduler \<Rightarrow> nat \<Rightarrow> scheduler" where
  "leave_unassigned so st i =
     st\<lparr>teams := (teams st)[i :=
          (teams st ! i)\<lparr>conflict_reason := Some (analyze_conflict so st (teams st ! i))\<rparr>]\<rparr>"

definition place_team ::
  "((tname \<times> group) list \<Rightarrow> (tname \<times> group) list) \<Rightarrow> scheduler \<Rightarrow> nat \<Rightarrow> scheduler" where
  "place_team so st i =
     (case first_free_slot st (teams st ! i) of
        None \<Rightarrow> leave_unassigned so st i
      | Some slot \<Rightarrow> occupy st i slot)"

text \<open>
  The processing order in the words of the specification: all teams, by ascending size of
  the availability list, teams of equal size in the order of the input.
\<close>

definition mrv_order :: "team list \<Rightarrow> nat list \<Rightarrow> bool" where
  "mrv_order ts order =
     (mset order = mset [0..<length ts] \<and>
      sorted (map (\<lambda>i. length (available_slots (ts ! i))) order) \<and>
      (\<forall>k. filter (\<lambda>i. length (available_slots (ts ! i)) = k) order =
           filter (\<lambda>i. length (available_slots (ts ! i)) = k) [0..<length ts]))"

text \<open>
  The condition of the second reason. In the words of the specification: every (slot,
  track) pair of the team's availability holds a team (\<open>all_pairs_occupied\<close>; a slot that
  the scheduler does not have holds none). As the analyzer tests it: every such pair whose
  slot is a slot of the scheduler holds a team, and the entries of the availability list
  that are not slots of the scheduler are passed over (\<open>known_pairs_occupied\<close>). The teams
  that hold such a pair: a holder with the empty name counts as none, as in the source.
\<close>

definition all_pairs_occupied :: "scheduler \<Rightarrow> team \<Rightarrow> bool" where
  "all_pairs_occupied st t =
     (\<forall>slot\<in>set (available_slots t).
        occupant st slot GA \<noteq> None \<and> occupant st slot GB \<noteq> None)"

definition known_pairs_occupied :: "scheduler \<Rightarrow> team \<Rightarrow> bool" where
  "known_pairs_occupied st t =
     (\<forall>slot\<in>set (available_slots t). slot \<in> fst ` set (time_slots st) \<longrightarrow>
        occupant st slot GA \<noteq> None \<and> occupant st slot GB \<noteq> None)"

definition occupying_teams :: "scheduler \<Rightarrow> team \<Rightarrow> (tname \<times> group) set" where
  "occupying_teams st t =
     {(n, g). n \<noteq> [] \<and> (\<exists>slot\<in>set (available_slots t). occupant st slot g = Some n)}"

text \<open>
  What a solve reads of a team and never writes: name, availability list and the two
  contact fields.
\<close>

definition team_input :: "team \<Rightarrow> tname \<times> slot list \<times> string \<times> string" where
  "team_input t = (name t, available_slots t, email t, phone t)"

text \<open>
  The result of the greedy engine in the words of the specification: the reset scheduler
  after the step has been applied to the teams in the processing order.
\<close>

definition greedy_result ::
  "((tname \<times> group) list \<Rightarrow> (tname \<times> group) list) \<Rightarrow> scheduler \<Rightarrow> scheduler" where
  "greedy_result so st =
     foldl (place_team so) (reset_teams (reset_time_slots st)) (sorted_teams st)"

text \<open>
  Availability containment for a scheduler: a team with an assigned slot has that slot in
  its availability list and holds the (slot, track) pair its record names; a team name that
  holds a pair is the name of a team with that slot in its availability list. For a
  returned schedule: every entry names a team with the slot in its availability list.
\<close>

definition within_availability :: "scheduler \<Rightarrow> bool" where
  "within_availability st =
     ((\<forall>t\<in>set (teams st). \<forall>slot. assigned_slot t = Some slot \<longrightarrow>
         slot \<in> set (available_slots t) \<and>
         (\<exists>g. assigned_group t = Some g \<and> occupant st slot g = Some (name t))) \<and>
      (\<forall>slot g n. occupant st slot g = Some n \<longrightarrow>
         (\<exists>t\<in>set (teams st). name t = n \<and> slot \<in> set (available_slots t))))"

definition admissible_schedule :: "team list \<Rightarrow> group_schedule \<Rightarrow> bool" where
  "admissible_schedule ts sched =
     (\<forall>e\<in>set (fst sched) \<union> set (snd sched).
        \<exists>t\<in>set ts. name t = snd e \<and> fst e \<in> set (available_slots t))"

text \<open>
  The parts of a time slot that no engine writes.
\<close>

definition slot_static :: "scheduler \<Rightarrow> (slot \<times> string \<times> string \<times> slot) list" where
  "slot_static st = map (\<lambda>(k, ts). (k, date ts, time ts, full_slot ts)) (time_slots st)"

text \<open>
  The optimizer in the words of the specification. The score of an iteration is the pair of
  the number of assigned teams and the gap score; one scheduler is better than another when
  it has more assigned teams, or as many and a smaller gap score; it is perfect when every
  team is assigned and the gap score is 0. \<open>iteration_state k\<close> is the scheduler after \<open>k\<close>
  iterations, each a shuffle followed by the greedy engine. \<open>snapshot\<close> is what the loop
  retains of an iteration and \<open>improved\<close> is its test. \<open>first_best k m\<close>: among the first \<open>m\<close>
  iterations, iteration \<open>k\<close> is the first that no other one is better than.
\<close>

definition assigned_count :: "scheduler \<Rightarrow> nat" where
  "assigned_count st = length (filter (\<lambda>t. truthy (assigned_slot t)) (teams st))"

definition gap_of :: "scheduler \<Rightarrow> nat" where
  "gap_of st = (case calculate_gap_score st of None \<Rightarrow> 0 | Some gap_score \<Rightarrow> gap_score)"

definition better :: "scheduler \<Rightarrow> scheduler \<Rightarrow> bool" where
  "better S S' =
     (assigned_count S > assigned_count S' \<or>
      (assigned_count S = assigned_count S' \<and> gap_of S < gap_of S'))"

definition perfect :: "scheduler \<Rightarrow> bool" where
  "perfect S = (assigned_count S = length (teams S) \<and> gap_of S = 0)"

definition snapshot :: "scheduler \<Rightarrow> best" where
  "snapshot S =
     \<lparr>best_schedule = Some (get_schedule_by_group S), best_count = assigned_count S,
      best_gap_score = Some (gap_of S),
      best_team_assignments = map team_assignment_of (teams S)\<rparr>"

definition improved :: "scheduler \<Rightarrow> best \<Rightarrow> bool" where
  "improved S b =
     (assigned_count S > best_count b \<or>
      (assigned_count S = best_count b \<and> less_gap (gap_of S) (best_gap_score b)))"

fun iteration_state ::
  "(nat \<Rightarrow> team list \<Rightarrow> team list) \<Rightarrow> ((tname \<times> group) list \<Rightarrow> (tname \<times> group) list) \<Rightarrow>
     scheduler \<Rightarrow> nat \<Rightarrow> scheduler" where
  "iteration_state shuffle so st 0 = st"
| "iteration_state shuffle so st (Suc k) =
     greedy_result so
       ((iteration_state shuffle so st k)
          \<lparr>teams := shuffle k (teams (iteration_state shuffle so st k))\<rparr>)"

definition first_best ::
  "(nat \<Rightarrow> team list \<Rightarrow> team list) \<Rightarrow> ((tname \<times> group) list \<Rightarrow> (tname \<times> group) list) \<Rightarrow>
     scheduler \<Rightarrow> nat \<Rightarrow> nat \<Rightarrow> bool" where
  "first_best shuffle so st k m =
     (k < m \<and>
      (\<forall>j<m. \<not> better (iteration_state shuffle so st (Suc j)) (iteration_state shuffle so st (Suc k))) \<and>
      (\<forall>j<k. better (iteration_state shuffle so st (Suc k)) (iteration_state shuffle so st (Suc j))))"

text \<open>Readings of a scheduler: the assignment fields of its teams, in order; their names;
  the occupied (slot, track) pairs with their holders.\<close>

definition team_assignments :: "scheduler \<Rightarrow> team_assignment list" where
  "team_assignments st = map team_assignment_of (teams st)"

definition team_names :: "scheduler \<Rightarrow> tname list" where
  "team_names st = map name (teams st)"

definition slot_occupants :: "scheduler \<Rightarrow> (slot \<times> group \<times> tname) list" where
  "slot_occupants st =
     concat (map (\<lambda>(k, ts).
        (case group_a_team ts of None \<Rightarrow> [] | Some n \<Rightarrow> [(k, GA, n)]) @
        (case group_b_team ts of None \<Rightarrow> [] | Some n \<Rightarrow> [(k, GB, n)])) (time_slots st))"

subsection \<open>The exact solver\<close>

text \<open>
  The schedule variables of one team, in the order of the loops. A schedule violates the
  avoidance rules when an interviewer who avoids its team has the group of its slot. A
  strategy has succeeded when its solve ended \<open>OPTIMAL\<close> or \<open>FEASIBLE\<close> and at least one
  schedule could be read off.
\<close>

definition team_keys :: "core_team \<Rightarrow> interview_slot list \<Rightarrow> schedule_key list" where
  "team_keys t slots =
     concat (map (\<lambda>s. [(team_id t, slot_id s, Group_A), (team_id t, slot_id s, Group_B)]) slots)"

definition violates_avoidance :: "interview_constraint \<Rightarrow> schedule \<Rightarrow> bool" where
  "violates_avoidance constraints sch =
     list_ex
       (\<lambda>(interviewer_id, avoided_teams).
          team_id (schedule_team sch) \<in> set avoided_teams \<and>
          (case map_of (interviewer_groups constraints) interviewer_id of
             None \<Rightarrow> False
           | Some interviewer_group \<Rightarrow>
               interviewer_group \<noteq> [] \<and>
               group_of_text interviewer_group = slot_group (schedule_slot sch)))
       (interviewer_avoidance constraints)"

definition succeeded :: "core_team list \<Rightarrow> interview_slot list \<Rightarrow> solver_status \<times> solution \<Rightarrow> bool" where
  "succeeded ts slots r =
     ((fst r = OPTIMAL \<or> fst r = FEASIBLE) \<and> extract_solution ts slots (snd r) \<noteq> [])"

subsection \<open>The one-track scheduler\<close>

text \<open>
  A feasible full assignment: every team, by its position in the list, gets a slot of its
  availability, and no two teams get the same slot.
\<close>

definition feasible_assignment :: "oteam list \<Rightarrow> bool" where
  "feasible_assignment ts =
     (\<exists>f. inj_on f {..<length ts} \<and> (\<forall>i<length ts. f i \<in> set (oavailable_slots (ts ! i))))"

text \<open>
  What a solve reads of a team and never writes (\<open>oteam_input\<close>); the names and the assigned
  slots of the teams of a scheduler, in order; names and availabilities alone
  (\<open>ostatic\<close>). An entry of a schedule is admissible when the slot is in the availability
  of a team of that name.
\<close>

definition oteam_input :: "oteam \<Rightarrow> tname \<times> slot list \<times> string \<times> string" where
  "oteam_input t = (oname t, oavailable_slots t, oemail t, ophone t)"

definition oteam_names :: "oscheduler \<Rightarrow> tname list" where
  "oteam_names st = map oname (oteams st)"

definition oassigned_slots :: "oscheduler \<Rightarrow> slot option list" where
  "oassigned_slots st = map oassigned_slot (oteams st)"

definition ostatic :: "oscheduler \<Rightarrow> (tname \<times> slot list) list" where
  "ostatic st = map (\<lambda>t. (oname t, oavailable_slots t)) (oteams st)"

definition admissible_entries :: "(tname \<times> slot list) list \<Rightarrow> (slot \<times> tname) list \<Rightarrow> bool" where
  "admissible_entries S sched =
     (\<forall>e\<in>set sched. \<exists>p\<in>set S. fst p = snd e \<and> fst e \<in> set (snd p))"

subsection \<open>The backtracking search without its state\<close>

text \<open>
  The search of \<open>backtrack\<close> as a function of the schedule and the set of assigned names
  alone: \<open>Some\<close> of the final pair when the search succeeds, \<open>None\<close> when it fails.
  \<open>refines\<close> relates the stateful function to it; \<open>sound_search\<close> is what a successful
  search guarantees.
\<close>

primrec first_success :: "('a \<Rightarrow> 'b option) \<Rightarrow> 'a list \<Rightarrow> 'b option" where
  "first_success f [] = None"
| "first_success f (x # xs) = (case f x of Some r \<Rightarrow> Some r | None \<Rightarrow> first_success f xs)"

primrec search ::
  "(tname \<times> slot list) list \<Rightarrow> nat list \<Rightarrow> (slot \<times> tname) list \<times> tname set \<Rightarrow>
     ((slot \<times> tname) list \<times> tname set) option" where
  "search S [] = (\<lambda>p. Some p)"
| "search S (i # later) =
     (\<lambda>p. if fst (S ! i) \<in> snd p then search S later p
          else first_success
                 (\<lambda>slot. if slot \<in> fst ` set (fst p) then None
                         else search S later
                                (AList.update slot (fst (S ! i)) (fst p), insert (fst (S ! i)) (snd p)))
                 (snd (S ! i)))"

definition refines ::
  "(bt_state \<Rightarrow> (bool \<times> bt_state) option) \<Rightarrow> (tname \<times> slot list) list \<Rightarrow>
   ((slot \<times> tname) list \<times> tname set \<Rightarrow> ((slot \<times> tname) list \<times> tname set) option) \<Rightarrow> bool" where
  "refines k S F =
     (\<forall>st asg. ostatic st = S \<longrightarrow>
        (\<exists>st'. ostatic st' = S \<and>
           (case F (oschedule st, asg) of
              None \<Rightarrow> k (st, asg) = Some (False, st', asg) \<and> oschedule st' = oschedule st
            | Some (sched', asg') \<Rightarrow> k (st, asg) = Some (True, st', asg') \<and> oschedule st' = sched')))"

definition sound_search ::
  "(tname \<times> slot list) list \<Rightarrow> nat list \<Rightarrow> (slot \<times> tname) list \<times> tname set \<Rightarrow>
     (slot \<times> tname) list \<times> tname set \<Rightarrow> bool" where
  "sound_search S later p r =
     (set (fst p) \<subseteq> set (fst r) \<and>
      (\<forall>i\<in>set later. fst (S ! i) \<in> snd r) \<and>
      (\<forall>e\<in>set (fst r) - set (fst p). \<exists>i\<in>set later. fst (S ! i) = snd e \<and> fst e \<in> set (snd (S ! i))) \<and>
      snd r = snd p \<union> snd ` (set (fst r) - set (fst p)) \<and>
      (distinct (map fst (fst p)) \<longrightarrow> distinct (map fst (fst r))) \<and>
      (distinct (map snd (fst p)) \<and> snd ` set (fst p) \<subseteq> snd p \<longrightarrow> distinct (map snd (fst r))))"

subsection \<open>Concrete schedulers\<close>

text \<open>The scheduler that \<open>__init__\<close> returns.\<close>

definition fresh_scheduler :: scheduler where
  "fresh_scheduler = the new_scheduler"

text \<open>
  Four teams: one without any slot, three that can attend only the first Friday slot.
  \<open>crowded_result\<close> is the scheduler after the greedy engine has run.
\<close>

definition crowded :: scheduler where
  "crowded =
     add_team ''T3'' [''9/12 19:00-19:45''] [] []
       (add_team ''T2'' [''9/12 19:00-19:45''] [] []
          (add_team ''T1'' [''9/12 19:00-19:45''] [] []
             (add_team ''T0'' [] [] [] fresh_scheduler)))"

definition crowded_result :: scheduler where
  "crowded_result = the (run_continuous remdups crowded)"

text \<open>
  Three teams; the second lists its slots latest first, the third has the shortest list.
\<close>

definition declared_late_first :: scheduler where
  "declared_late_first =
     add_team ''T3'' [''9/13 10:00-10:45''] [] []
       (add_team ''T2'' [''9/14 10:00-10:45'', ''9/12 19:00-19:45''] [] []
          (add_team ''T1'' [''9/12 19:00-19:45'', ''9/12 19:45-20:30''] [] []
             fresh_scheduler))"

text \<open>
  Three teams with two slots each; the first choices of A and B leave no slot for C.
\<close>

definition dead_end :: oscheduler where
  "dead_end =
     oadd_team ''C'' [''9/12 20:30-21:15'', ''9/12 19:00-19:45''] [] []
       (oadd_team ''B'' [''9/12 19:00-19:45'', ''9/12 20:30-21:15''] [] []
          (oadd_team ''A'' [''9/12 19:00-19:45'', ''9/12 19:45-20:30''] [] []
             new_oscheduler))"

text \<open>
  Two teams of the same name, one for each of the first two Friday slots; two teams of
  which the first has the longer availability list.
\<close>

definition twins :: oscheduler where
  "twins =
     oadd_team ''X'' [''9/12 19:45-20:30''] [] []
       (oadd_team ''X'' [''9/12 19:00-19:45''] [] [] new_oscheduler)"

definition long_first :: oscheduler where
  "long_first =
     oadd_team ''B'' [''9/12 19:00-19:45''] [] []
       (oadd_team ''A'' [''9/12 19:00-19:45'', ''9/12 19:45-20:30''] [] [] new_oscheduler)"

text \<open>One team whose only availability entry is a slot of a day the scheduler does not have.\<close>

definition stranger :: scheduler where
  "stranger = add_team ''T1'' [''9/15 10:00-10:45''] [] [] fresh_scheduler"

text \<open>
  Three teams of two slots each; T1 can also attend on Saturday. A shuffle that keeps the
  order in the first iteration and reverses it afterwards, and one that always keeps it.
\<close>

definition trio :: scheduler where
  "trio =
     add_team ''T3'' [''9/12 20:30-21:15'', ''9/12 21:15-22:00''] [] []
       (add_team ''T2'' [''9/12 20:30-21:15'', ''9/12 21:15-22:00''] [] []
          (add_team ''T1'' [''9/12 20:30-21:15'', ''9/13 10:00-10:45''] [] []
             fresh_scheduler))"

definition reverse_later :: "nat \<Rightarrow> team list \<Rightarrow> team list" where
  "reverse_later k xs = (if k = 0 then xs else rev xs)"

definition keep_order :: "nat \<Rightarrow> team list \<Rightarrow> team list" where
  "keep_order k xs = xs"

text \<open>Two teams of the same name; one team with the empty name.\<close>

definition namesakes :: scheduler where
  "namesakes =
     add_team ''T1'' [''9/12 19:45-20:30''] [] []
       (add_team ''T1'' [''9/12 19:00-19:45''] [] [] fresh_scheduler)"

definition nameless :: scheduler where
  "nameless = add_team [] [''9/12 19:00-19:45''] [] [] fresh_scheduler"

text \<open>
  The default time slots of the exact solver, with the identifiers \<open>s0\<close>, \<open>s1\<close>, ... and three
  consecutive dates; \<open>slot_rows\<close> lists them.
\<close>

definition example_slots :: "interview_slot list" where
  "example_slots =
     generate_default_time_slots (\<lambda>k. ''s'' @ decimal k) (\<lambda>d. ''2025-09-1'' @ decimal (d + 2))"

definition slot_rows :: "(string \<times> string \<times> string \<times> string \<times> interview_group) list" where
  "slot_rows = [
      (''s0'', ''2025-09-12'', ''09:00'', ''09:30'', Group_A),
      (''s1'', ''2025-09-12'', ''09:00'', ''09:30'', Group_B),
      (''s2'', ''2025-09-12'', ''09:30'', ''10:00'', Group_A),
      (''s3'', ''2025-09-12'', ''09:30'', ''10:00'', Group_B),
      (''s4'', ''2025-09-12'', ''10:00'', ''10:30'', Group_A),
      (''s5'', ''2025-09-12'', ''10:00'', ''10:30'', Group_B),
      (''s6'', ''2025-09-12'', ''10:30'', ''11:00'', Group_A),
      (''s7'', ''2025-09-12'', ''10:30'', ''11:00'', Group_B),
      (''s8'', ''2025-09-12'', ''11:00'', ''11:30'', Group_A),
      (''s9'', ''2025-09-12'', ''11:00'', ''11:30'', Group_B),
      (''s10'', ''2025-09-12'', ''11:30'', ''12:00'', Group_A),
      (''s11'', ''2025-09-12'', ''11:30'', ''12:00'', Group_B),
      (''s12'', ''2025-09-12'', ''14:00'', ''14:30'', Group_A),
      (''s13'', ''2025-09-12'', ''14:00'', ''14:30'', Group_B),
      (''s14'', ''2025-09-12'', ''14:30'', ''15:00'', Group_A),
      (''s15'', ''2025-09-12'', ''14:30'', ''15:00'', Group_B),
      (''s16'', ''2025-09-12'', ''15:00'', ''15:30'', Group_A),
      (''s17'', ''2025-09-12'', ''15:00'', ''15:30'', Group_B),
      (''s18'', ''2025-09-12'', ''15:30'', ''16:00'', Group_A),
      (''s19'', ''2025-09-12'', ''15:30'', ''16:00'', Group_B),
      (''s20'', ''2025-09-12'', ''16:00'', ''16:30'', Group_A),
      (''s21'', ''2025-09-12'', ''16:00'', ''16:30'', Group_B),
      (''s22'', ''2025-09-12'', ''16:30'', ''17:00'', Group_A),
      (''s23'', ''2025-09-12'', ''16:30'', ''17:00'', Group_B),
      (''s24'', ''2025-09-12'', ''17:00'', ''17:30'', Group_A),
      (''s25'', ''2025-09-12'', ''17:00'', ''17:30'', Group_B),
      (''s26'', ''2025-09-12'', ''17:30'', ''18:00'', Group_A),
      (''s27'', ''2025-09-12'', ''17:30'', ''18:00'', Group_B),
      (''s28'', ''2025-09-13'', ''09:00'', ''09:30'', Group_A),
      (''s29'', ''2025-09-13'', ''09:00'', ''09:30'', Group_B),
      (''s30'', ''2025-09-13'', ''09:30'', ''10:00'', Group_A),
      (''s31'', ''2025-09-13'', ''09:30'', ''10:00'', Group_B),
      (''s32'', ''2025-09-13'', ''10:00'', ''10:30'', Group_A),
      (''s33'', ''2025-09-13'', ''10:00'', ''10:30'', Group_B),
      (''s34'', ''2025-09-13'', ''10:30'', ''11:00'', Group_A),
      (''s35'', ''2025-09-13'', ''10:30'', ''11:00'', Group_B),
      (''s36'', ''2025-09-13'', ''11:00'', ''11:30'', Group_A),
      (''s37'', ''2025-09-13'', ''11:00'', ''11:30'', Group_B),
      (''s38'', ''2025-09-13'', ''11:30'', ''12:00'', Group_A),
      (''s39'', ''2025-09-13'', ''11:30'', ''12:00'', Group_B),
      (''s40'', ''2025-09-13'', ''14:00'', ''14:30'', Group_A),
      (''s41'', ''2025-09-13'', ''14:00'', ''14:30'', Group_B),
      (''s42'', ''2025-09-13'', ''14:30'', ''15:00'', Group_A),
      (''s43'', ''2025-09-13'', ''14:30'', ''15:00'', Group_B),
      (''s44'', ''2025-09-13'', ''15:00'', ''15:30'', Group_A),
      (''s45'', ''2025-09-13'', ''15:00'', ''15:30'', Group_B),
      (''s46'', ''2025-09-13'', ''15:30'', ''16:00'', Group_A),
      (''s47'', ''2025-09-13'', ''15:30'', ''16:00'', Group_B),
      (''s48'', ''2025-09-13'', ''16:00'', ''16:30'', Group_A),
      (''s49'', ''2025-09-13'', ''16:00'', ''16:30'', Group_B),
      (''s50'', ''2025-09-13'', ''16:30'', ''17:00'', Group_A),
      (''s51'', ''2025-09-13'', ''16:30'', ''17:00'', Group_B),
      (''s52'', ''2025-09-13'', ''17:00'', ''17:30'', Group_A),
      (''s53'', ''2025-09-13'', ''17:00'', ''17:30'', Group_B),
      (''s54'', ''2025-09-13'', ''17:30'', ''18:00'', Group_A),
      (''s55'', ''2025-09-13'', ''17:30'', ''18:00'', Group_B),
      (''s56'', ''2025-09-14'', ''09:00'', ''09:30'', Group_A),
      (''s57'', ''2025-09-14'', ''09:00'', ''09:30'', Group_B),
      (''s58'', ''2025-09-14'', ''09:30'', ''10:00'', Group_A),
      (''s59'', ''2025-09-14'', ''09:30'', ''10:00'', Group_B),
      (''s60'', ''2025-09-14'', ''10:00'', ''10:30'', Group_A),
      (''s61'', ''2025-09-14'', ''10:00'', ''10:30'', Group_B),
      (''s62'', ''2025-09-14'', ''10:30'', ''11:00'', Group_A),
      (''s63'', ''2025-09-14'', ''10:30'', ''11:00'', Group_B),
      (''s64'', ''2025-09-14'', ''11:00'', ''11:30'', Group_A),
      (''s65'', ''2025-09-14'', ''11:00'', ''11:30'', Group_B),
      (''s66'', ''2025-09-14'', ''11:30'', ''12:00'', Group_A),
      (''s67'', ''2025-09-14'', ''11:30'', ''12:00'', Group_B),
      (''s68'', ''2025-09-14'', ''14:00'', ''14:30'', Group_A),
      (''s69'', ''2025-09-14'', ''14:00'', ''14:30'', Group_B),
      (''s70'', ''2025-09-14'', ''14:30'', ''15:00'', Group_A),
      (''s71'', ''2025-09-14'', ''14:30'', ''15:00'', Group_B),
      (''s72'', ''2025-09-14'', ''15:00'', ''15:30'', Group_A),
      (''s73'', ''2025-09-14'', ''15:00'', ''15:30'', Group_B),
      (''s74'', ''2025-09-14'', ''15:30'', ''16:00'', Group_A),
      (''s75'', ''2025-09-14'', ''15:30'', ''16:00'', Group_B),
      (''s76'', ''2025-09-14'', ''16:00'', ''16:30'', Group_A),
      (''s77'', ''2025-09-14'', ''16:00'', ''16:30'', Group_B),
      (''s78'', ''2025-09-14'', ''16:30'', ''17:00'', Group_A),
      (''s79'', ''2025-09-14'', ''16:30'', ''17:00'', Group_B),
      (''s80'', ''2025-09-14'', ''17:00'', ''17:30'', Group_A),
      (''s81'', ''2025-09-14'', ''17:00'', ''17:30'', Group_B),
      (''s82'', ''2025-09-14'', ''17:30'', ''18:00'', Group_A),
      (''s83'', ''2025-09-14'', ''17:30'', ''18:00'', Group_B)]"

text \<open>
  One team without preferences, avoided by an interviewer of group A; a value for every
  variable that puts the team on the group-B variable of the first slot, which is a slot
  of group A.
\<close>

definition lone_team :: "core_team list" where
  "lone_team = [\<lparr>team_id = ''T1'', team_name = ''Team 1'', time_preferences = []\<rparr>]"

definition avoid_a :: interview_constraint where
  "avoid_a = \<lparr>interviewer_avoidance = [(''I1'', [''T1''])], interviewer_groups = [(''I1'', ''A'')]\<rparr>"

definition phantom_b :: solution where
  "phantom_b =
     \<lparr>schedule_value = (\<lambda>k. k = (''T1'', ''s0'', Group_B)),
      preference_value = (\<lambda>k. True),
      group_value = (\<lambda>k. False)\<rparr>"

text \<open>
  Two teams, and a value for every variable that puts the first on the group-A variable
  and the second on the group-B variable of the same first slot.
\<close>

definition two_teams :: "core_team list" where
  "two_teams =
     [\<lparr>team_id = ''T1'', team_name = ''Team 1'', time_preferences = []\<rparr>,
      \<lparr>team_id = ''T2'', team_name = ''Team 2'', time_preferences = []\<rparr>]"

definition no_constraints :: interview_constraint where
  "no_constraints = \<lparr>interviewer_avoidance = [], interviewer_groups = []\<rparr>"

definition double_booking :: solution where
  "double_booking =
     \<lparr>schedule_value = (\<lambda>k. k = (''T1'', ''s0'', Group_A) \<or> k = (''T2'', ''s0'', Group_B)),
      preference_value = (\<lambda>k. True),
      group_value = (\<lambda>k. k = (''T1'', Group_A))\<rparr>"

text \<open>
  One team more than the 168 variables per team can hold apart; a solver result without
  a solution; a solver that runs out of time on the first four strategies.
\<close>

definition too_many_teams :: "core_team list" where
  "too_many_teams =
     map (\<lambda>k. \<lparr>team_id = ''T'' @ decimal k, team_name = [], time_preferences = []\<rparr>) [0..<169]"

definition idle :: solution where
  "idle = \<lparr>schedule_value = (\<lambda>k. False), preference_value = (\<lambda>k. False),
           group_value = (\<lambda>k. False)\<rparr>"

text \<open>
  One team that prefers the window from 09:00 to 09:30; what \<open>_find_matching_slots\<close> returns
  for that text on the default slots (the slots that start at 09:00); a value for every
  variable that puts the team into the slot \<open>s12\<close>, from 14:00 to 14:30, and sets no
  preference variable.
\<close>

definition morning_team :: "core_team list" where
  "morning_team =
     [\<lparr>team_id = ''T1'', team_name = ''Team 1'', time_preferences = [''09:00-09:30'']\<rparr>]"

definition matching_nine :: "string \<Rightarrow> interview_slot list" where
  "matching_nine time_preference =
     (if time_preference = ''09:00-09:30''
      then filter (\<lambda>s. start_time s = ''09:00'') example_slots else [])"

definition afternoon :: solution where
  "afternoon =
     \<lparr>schedule_value = (\<lambda>k. k = (''T1'', ''s12'', Group_A)),
      preference_value = (\<lambda>k. False),
      group_value = (\<lambda>k. k = (''T1'', Group_A))\<rparr>"

definition schedule_row :: "schedule \<Rightarrow> string \<times> string list \<times> string \<times> string \<times> string" where
  "schedule_row sch =
     (team_id (schedule_team sch), time_preferences (schedule_team sch),
      slot_id (schedule_slot sch), start_time (schedule_slot sch), end_time (schedule_slot sch))"

text \<open>
  The hard constraints can be satisfied; a solver that finds every strategy infeasible.
\<close>

definition solvable :: "core_team list \<Rightarrow> interview_slot list \<Rightarrow> interview_constraint \<Rightarrow> bool" where
  "solvable ts slots constraints =
     (\<exists>find_matching_slots v. hard_constraints find_matching_slots ts slots constraints v)"

definition never_solved :: "optimization_strategy \<Rightarrow> solver_status \<times> solution" where
  "never_solved strategy = (INFEASIBLE, idle)"

definition only_fifth :: "optimization_strategy \<Rightarrow> solver_status \<times> solution" where
  "only_fifth strategy =
     (if strategy = INTERVIEWER_CONSTRAINTS then (OPTIMAL, phantom_b) else (UNKNOWN, idle))"

section \<open>Auxiliary facts\<close>

lemma insort_key_cong_on:
  "f a = g a \<Longrightarrow> (\<forall>x\<in>set xs. f x = g x) \<Longrightarrow> insort_key f a xs = insort_key g a xs"
  by (induction xs) auto

lemma sort_key_cong_on:
  "(\<forall>x\<in>set xs. f x = g x) \<Longrightarrow> sort_key f xs = sort_key g xs"
proof (induction xs)
  case Nil
  then show ?case by simp
next
  case (Cons a xs)
  then have "sort_key f xs = sort_key g xs" by simp
  moreover have "insort_key f a (sort_key g xs) = insort_key g a (sort_key g xs)"
    using Cons.prems by (intro insort_key_cong_on) auto
  ultimately show ?case by simp
qed

lemma set_listing_remdups: "set_listing remdups"
  by (simp add: set_listing_def)

section \<open>The greedy engine follows the specification's step\<close>

lemma generate_all_slots_priority:
  "concat (map (\<lambda>d. filter (prefix d) generate_all_slots) schedule_dates) = generate_all_slots"
  by code_simp

lemma generate_all_slots_chronological: "sorted_wrt ord_class.lexordp generate_all_slots"
  by code_simp

lemma new_scheduler_wf: "map_option wf_scheduler new_scheduler = Some True"
  by code_simp

lemma fresh_scheduler_wf: "wf_scheduler fresh_scheduler"
proof -
  obtain z where "new_scheduler = Some z" and "wf_scheduler z"
    using new_scheduler_wf by auto
  then show ?thesis unfolding fresh_scheduler_def by (metis option.sel)
qed

lemma add_team_wf: "wf_scheduler st \<Longrightarrow> wf_scheduler (add_team n slots e p st)"
  by (simp add: wf_scheduler_def add_team_def)

lemma wf_priority: "wf_scheduler st \<Longrightarrow> get_continuous_slot_priority st = all_slots st"
  by (simp add: wf_scheduler_def get_continuous_slot_priority_def generate_all_slots_priority)

lemma wf_keys: "wf_scheduler st \<Longrightarrow> fst ` set (time_slots st) = set (all_slots st)"
  by (metis wf_scheduler_def set_map)

lemma scan_slots_find:
  assumes "set slots \<subseteq> fst ` set (time_slots st)"
  shows "scan_slots i slots st =
     Some (case find (\<lambda>slot. slot \<in> set (available_slots (teams st ! i)) \<and> slot_has_space st slot)
                  slots of
             None \<Rightarrow> (False, st)
           | Some slot \<Rightarrow> (True, occupy st i slot))"
  using assms
proof (induction slots)
  case Nil
  then show ?case by simp
next
  case (Cons slot rest)
  then obtain ts where ts: "map_of (time_slots st) slot = Some ts"
    by (metis list.set_intros(1) map_of_eq_None_iff not_Some_eq subsetD)
  from Cons have IH: "scan_slots i rest st =
     Some (case find (\<lambda>slot. slot \<in> set (available_slots (teams st ! i)) \<and> slot_has_space st slot)
                  rest of
             None \<Rightarrow> (False, st)
           | Some slot \<Rightarrow> (True, occupy st i slot))" by simp
  show ?case
    using ts IH
    by (auto simp: slot_has_space_def occupy_def get_available_group_def has_space_def Let_def)
qed

lemma process_team_place:
  assumes "wf_scheduler st" and "\<not> truthy (assigned_slot (teams st ! i))"
  shows "process_team so (get_continuous_slot_priority st) i st = Some (place_team so st i)"
proof -
  have sub: "set (all_slots st) \<subseteq> fst ` set (time_slots st)"
    using assms(1) by (simp add: wf_keys)
  show ?thesis
    using assms(2)
    by (simp add: process_team_def wf_priority[OF assms(1)] scan_slots_find[OF sub]
        place_team_def first_free_slot_def leave_unassigned_def split: option.split)
qed

lemma occupy_frame:
  "all_slots (occupy st i slot) = all_slots st"
  "length (teams (occupy st i slot)) = length (teams st)"
  "map fst (time_slots (occupy st i slot)) = map fst (time_slots st)"
  "j \<noteq> i \<Longrightarrow> teams (occupy st i slot) ! j = teams st ! j"
  by (auto simp: occupy_def update_keys map_of_eq_None_iff image_iff split: option.split
      dest!: map_of_SomeD)

lemma place_team_frame:
  "all_slots (place_team so st i) = all_slots st"
  "length (teams (place_team so st i)) = length (teams st)"
  "map fst (time_slots (place_team so st i)) = map fst (time_slots st)"
  "j \<noteq> i \<Longrightarrow> teams (place_team so st i) ! j = teams st ! j"
  by (auto simp: place_team_def leave_unassigned_def occupy_frame split: option.split)

lemma place_team_wf: "wf_scheduler st \<Longrightarrow> wf_scheduler (place_team so st i)"
  by (simp add: wf_scheduler_def place_team_frame)

lemma process_teams_fold:
  assumes "wf_scheduler st" and "distinct is"
    and "\<forall>i\<in>set is. assigned_slot (teams st ! i) = None"
  shows "process_teams so (all_slots st) is st = Some (foldl (place_team so) st is)"
  using assms
proof (induction "is" arbitrary: st)
  case Nil
  then show ?case by simp
next
  case (Cons i rest)
  have step: "process_team so (all_slots st) i st = Some (place_team so st i)"
    using process_team_place[of st i so] Cons.prems by (simp add: wf_priority)
  have "process_teams so (all_slots (place_team so st i)) rest (place_team so st i)
        = Some (foldl (place_team so) (place_team so st i) rest)"
  proof (rule Cons.IH)
    show "wf_scheduler (place_team so st i)" using Cons.prems(1) by (rule place_team_wf)
    show "distinct rest" using Cons.prems(2) by simp
    show "\<forall>j\<in>set rest. assigned_slot (teams (place_team so st i) ! j) = None"
    proof
      fix j assume j: "j \<in> set rest"
      then have "j \<noteq> i" using Cons.prems(2) by auto
      then show "assigned_slot (teams (place_team so st i) ! j) = None"
        using Cons.prems(3) j by (simp add: place_team_frame)
    qed
  qed
  then show ?case using step by (simp add: place_team_frame)
qed

lemma reset_frame:
  "all_slots (reset_teams (reset_time_slots st)) = all_slots st"
  "map fst (time_slots (reset_teams (reset_time_slots st))) = map fst (time_slots st)"
  "length (teams (reset_teams (reset_time_slots st))) = length (teams st)"
  "i < length (teams st) \<Longrightarrow> assigned_slot (teams (reset_teams (reset_time_slots st)) ! i) = None"
  "i < length (teams st) \<Longrightarrow>
     available_slots (teams (reset_teams (reset_time_slots st)) ! i) = available_slots (teams st ! i)"
  by (auto simp: reset_teams_def reset_time_slots_def split_def comp_def)

lemma sorted_teams_reset:
  "sorted_teams (reset_teams (reset_time_slots st)) = sorted_teams st"
  unfolding sorted_teams_def reset_frame(3)
  by (rule sort_key_cong_on) (simp add: reset_frame)

lemma reset_wf: "wf_scheduler st \<Longrightarrow> wf_scheduler (reset_teams (reset_time_slots st))"
  by (simp add: wf_scheduler_def reset_frame)

lemma run_continuous_fold:
  assumes "wf_scheduler st"
  shows "run_continuous so st =
     Some (foldl (place_team so) (reset_teams (reset_time_slots st)) (sorted_teams st))"
proof -
  let ?st1 = "reset_teams (reset_time_slots st)"
  have wf1: "wf_scheduler ?st1" using assms by (rule reset_wf)
  have "process_teams so (all_slots ?st1) (sorted_teams st) ?st1
        = Some (foldl (place_team so) ?st1 (sorted_teams st))"
  proof (rule process_teams_fold[OF wf1])
    show "distinct (sorted_teams st)" by (simp add: sorted_teams_def)
    show "\<forall>i\<in>set (sorted_teams st). assigned_slot (teams ?st1 ! i) = None"
      by (simp add: reset_frame sorted_teams_def)
  qed
  then show ?thesis
    by (simp add: run_continuous_def Let_def wf_priority[OF wf1] sorted_teams_reset)
qed

lemma sorted_teams_mrv: "mrv_order (teams st) (sorted_teams st)"
  by (simp add: mrv_order_def sorted_teams_def sort_key_stable)

text \<open>
  C8. On a well-formed scheduler the greedy engine never raises and its result is the
  reset scheduler after the specification's step (\<open>place_team\<close>: the first slot of the
  universe that is in the availability and has a free track, track A before track B, else
  unassigned) has been applied to the teams in the order \<open>sorted_teams\<close>. That order holds
  every team once, ascends in the size of the availability list and keeps the input order
  among teams of equal size. The slots are scanned in the order of the generated universe,
  which ascends in (date, start time), whatever order the team declared them in.
\<close>

theorem greedy_processes_most_constrained_first_in_slot_order:
  assumes "wf_scheduler st"
  shows "run_continuous so st =
           Some (foldl (place_team so) (reset_teams (reset_time_slots st)) (sorted_teams st)) \<and>
         mrv_order (teams st) (sorted_teams st) \<and>
         get_continuous_slot_priority st = generate_all_slots \<and>
         all_slots st = generate_all_slots \<and>
         sorted_wrt ord_class.lexordp generate_all_slots"
  using assms run_continuous_fold[OF assms] sorted_teams_mrv wf_priority[OF assms]
    generate_all_slots_chronological
  by (simp add: wf_scheduler_def)

lemma declared_late_first_wf: "wf_scheduler declared_late_first"
  by (simp add: declared_late_first_def add_team_wf fresh_scheduler_wf)

text \<open>
  The witness: T3 (one slot) is processed first, then T1 and T2 in input order; T2, which
  declared the Sunday slot before the Friday slot, is placed in the Friday slot, on track
  B because T1 holds track A.
\<close>

theorem greedy_processes_most_constrained_first_witness:
  "wf_scheduler declared_late_first \<and>
   run_continuous remdups declared_late_first =
     Some (foldl (place_team remdups) (reset_teams (reset_time_slots declared_late_first))
             (sorted_teams declared_late_first)) \<and>
   mrv_order (teams declared_late_first) (sorted_teams declared_late_first) \<and>
   sorted_teams declared_late_first = [2, 0, 1] \<and>
   map_option get_schedule_by_group (run_continuous remdups declared_late_first) =
     Some ([(''9/12 19:00-19:45'', ''T1''), (''9/13 10:00-10:45'', ''T3'')],
           [(''9/12 19:00-19:45'', ''T2'')])"
proof -
  have order: "sorted_teams declared_late_first = [2, 0, 1]"
    by code_simp
  have result: "map_option get_schedule_by_group (run_continuous remdups declared_late_first) =
     Some ([(''9/12 19:00-19:45'', ''T1''), (''9/13 10:00-10:45'', ''T3'')],
           [(''9/12 19:00-19:45'', ''T2'')])"
    by code_simp
  show ?thesis
    using greedy_processes_most_constrained_first_in_slot_order[OF declared_late_first_wf, of remdups]
      declared_late_first_wf order result
    by simp
qed

section \<open>The conflict analyzer\<close>

lemma all_full_scan_iff:
  "all_full_scan tss slots =
     (\<forall>slot\<in>set slots. \<forall>ts. map_of tss slot = Some ts \<longrightarrow> \<not> has_space ts)"
  by (induction slots) (auto split: option.splits)

lemma all_full_scan_occupied:
  "all_full_scan (time_slots st) (available_slots t) = known_pairs_occupied st t"
proof -
  have key: "\<And>slot. slot \<in> fst ` set (time_slots st) \<longleftrightarrow> map_of (time_slots st) slot \<noteq> None"
    by (simp add: map_of_eq_None_iff)
  show ?thesis
    unfolding all_full_scan_iff known_pairs_occupied_def occupant_def has_space_def key
    by (auto split: option.splits)
qed

lemma in_conflicting_teams:
  "(n, g) \<in> set (conflicting_teams (time_slots st) slots) \<longleftrightarrow>
     n \<noteq> [] \<and> (\<exists>slot\<in>set slots. occupant st slot g = Some n)"
proof (induction slots)
  case Nil
  then show ?case by simp
next
  case (Cons slot rest)
  show ?case
  proof (cases "map_of (time_slots st) slot")
    case None
    then show ?thesis using Cons by (simp add: occupant_def)
  next
    case (Some ts)
    have a: "truthy (group_a_team ts) \<and> the (group_a_team ts) = n \<longleftrightarrow>
        n \<noteq> [] \<and> group_a_team ts = Some n"
      by (cases "group_a_team ts") auto
    have b: "truthy (group_b_team ts) \<and> the (group_b_team ts) = n \<longleftrightarrow>
        n \<noteq> [] \<and> group_b_team ts = Some n"
      by (cases "group_b_team ts") auto
    have here: "(n, g) \<in> set ((if truthy (group_a_team ts) then [(the (group_a_team ts), GA)] else []) @
          (if truthy (group_b_team ts) then [(the (group_b_team ts), GB)] else []))
        \<longleftrightarrow> n \<noteq> [] \<and> occupant st slot g = Some n"
      using a b Some by (cases g) (auto simp: occupant_def)
    have "(n, g) \<in> set (conflicting_teams (time_slots st) (slot # rest)) \<longleftrightarrow>
        (n, g) \<in> set ((if truthy (group_a_team ts) then [(the (group_a_team ts), GA)] else []) @
          (if truthy (group_b_team ts) then [(the (group_b_team ts), GB)] else []))
        \<or> (n, g) \<in> set (conflicting_teams (time_slots st) rest)"
      using Some by simp
    then show ?thesis
      unfolding here Cons.IH by auto
  qed
qed

lemma set_conflicting_occupying:
  "set (conflicting_teams (time_slots st) (available_slots t)) = occupying_teams st t"
proof (rule set_eqI)
  fix p :: "tname \<times> group"
  obtain n g where p: "p = (n, g)" by (cases p)
  show "p \<in> set (conflicting_teams (time_slots st) (available_slots t)) \<longleftrightarrow>
        p \<in> occupying_teams st t"
    unfolding p in_conflicting_teams occupying_teams_def by simp
qed

text \<open>
  C9, as amended. The analyzer returns one reason for a team: \<open>NoAvailableSlots\<close> when the
  availability list is empty; otherwise, when every (slot, track) pair of the availability
  whose slot is a slot of the scheduler is occupied, \<open>AllSlotsOccupied\<close> with a list of
  distinct entries, each a team that occupies such a pair, that holds all of them when
  there are at most three and three of them otherwise; otherwise the indeterminate reason.
  Entries of the availability list that are not slots of the scheduler are passed over;
  for a team whose availability lies within the slots of the scheduler the condition is
  that of the specification: every (slot, track) pair of its availability is occupied. The
  listing order of \<open>list(set(...))\<close> is arbitrary (\<open>set_listing\<close>).
\<close>

theorem analyze_conflict_reason:
  assumes "set_listing so"
  shows "(available_slots t = [] \<longrightarrow> analyze_conflict so st t = NoAvailableSlots) \<and>
    (available_slots t \<noteq> [] \<and> known_pairs_occupied st t \<longrightarrow>
       (\<exists>ps. analyze_conflict so st t = AllSlotsOccupied ps \<and> distinct ps \<and>
             set ps \<subseteq> occupying_teams st t \<and>
             length ps = min 3 (card (occupying_teams st t)))) \<and>
    (available_slots t \<noteq> [] \<and> \<not> known_pairs_occupied st t \<longrightarrow>
       analyze_conflict so st t = UnknownReason) \<and>
    (set (available_slots t) \<subseteq> fst ` set (time_slots st) \<longrightarrow>
       known_pairs_occupied st t = all_pairs_occupied st t)"
proof -
  let ?xs = "conflicting_teams (time_slots st) (available_slots t)"
  have d: "distinct (so ?xs)" and s: "set (so ?xs) = occupying_teams st t"
    using assms by (simp_all add: set_listing_def set_conflicting_occupying)
  have "length (so ?xs) = card (occupying_teams st t)"
    using d s by (metis distinct_card)
  then have len: "length (take 3 (so ?xs)) = min 3 (card (occupying_teams st t))"
    by simp
  have sub: "set (take 3 (so ?xs)) \<subseteq> occupying_teams st t"
    using s set_take_subset by fastforce
  have same: "set (available_slots t) \<subseteq> fst ` set (time_slots st) \<longrightarrow>
       known_pairs_occupied st t = all_pairs_occupied st t"
    unfolding known_pairs_occupied_def all_pairs_occupied_def by blast
  show ?thesis
    using d len sub same
    by (simp add: analyze_conflict_def all_full_scan_occupied)
qed

text \<open>
  The witness, on the scheduler \<open>crowded_result\<close>: T0 has no slot; T3 finds both tracks of
  its only slot, a slot of the scheduler, taken by T1 and T2; a team that can attend the
  second Friday slot, which is empty, has no determinate reason.
\<close>

theorem analyze_conflict_reason_witness:
  "set_listing remdups \<and>
   available_slots (teams crowded_result ! 0) = [] \<and>
   analyze_conflict remdups crowded_result (teams crowded_result ! 0) = NoAvailableSlots \<and>
   available_slots (teams crowded_result ! 3) \<noteq> [] \<and>
   known_pairs_occupied crowded_result (teams crowded_result ! 3) \<and>
   all_pairs_occupied crowded_result (teams crowded_result ! 3) \<and>
   (\<exists>ps. analyze_conflict remdups crowded_result (teams crowded_result ! 3) = AllSlotsOccupied ps \<and>
         distinct ps \<and> set ps \<subseteq> occupying_teams crowded_result (teams crowded_result ! 3) \<and>
         length ps = min 3 (card (occupying_teams crowded_result (teams crowded_result ! 3)))) \<and>
   analyze_conflict remdups crowded_result (teams crowded_result ! 3) =
     AllSlotsOccupied [(''T1'', GA), (''T2'', GB)] \<and>
   \<not> known_pairs_occupied crowded_result
       ((teams crowded_result ! 3)\<lparr>available_slots := [''9/12 19:45-20:30'']\<rparr>) \<and>
   analyze_conflict remdups crowded_result
       ((teams crowded_result ! 3)\<lparr>available_slots := [''9/12 19:45-20:30'']\<rparr>) = UnknownReason"
proof -
  let ?t3 = "teams crowded_result ! 3"
  let ?t4 = "?t3\<lparr>available_slots := [''9/12 19:45-20:30'']\<rparr>"
  have e0: "available_slots (teams crowded_result ! 0) = []"
    by code_simp
  have e3: "available_slots ?t3 \<noteq> []"
    by code_simp
  have o3: "known_pairs_occupied crowded_result ?t3"
    by code_simp
  have a3: "all_pairs_occupied crowded_result ?t3"
    by code_simp
  have v3: "analyze_conflict remdups crowded_result ?t3 = AllSlotsOccupied [(''T1'', GA), (''T2'', GB)]"
    by code_simp
  have e4: "available_slots ?t4 \<noteq> []"
    by simp
  have o4: "\<not> known_pairs_occupied crowded_result ?t4"
    by code_simp
  show ?thesis
    using analyze_conflict_reason[OF set_listing_remdups, of "teams crowded_result ! 0" crowded_result]
      analyze_conflict_reason[OF set_listing_remdups, of ?t3 crowded_result]
      analyze_conflict_reason[OF set_listing_remdups, of ?t4 crowded_result]
      set_listing_remdups e0 e3 o3 a3 v3 e4 o4
    by blast
qed

text \<open>
  The counterexample: the only entry of the availability list of T1 is a slot of 9/15,
  which the scheduler does not have. No pair is occupied, and none of the team's pairs is,
  yet the analyzer, and with it the greedy engine, gives the reason \<open>AllSlotsOccupied\<close> with
  an empty list, where the specification gives the indeterminate reason.
\<close>

theorem unknown_slot_counts_as_occupied:
  "available_slots (teams stranger ! 0) = [''9/15 10:00-10:45''] \<and>
   slot_occupants stranger = [] \<and>
   \<not> all_pairs_occupied stranger (teams stranger ! 0) \<and>
   analyze_conflict remdups stranger (teams stranger ! 0) = AllSlotsOccupied [] \<and>
   map_option team_assignments (run_continuous remdups stranger) =
     Some [(''T1'', None, None, Some (AllSlotsOccupied []))]"
proof -
  have a: "available_slots (teams stranger ! 0) = [''9/15 10:00-10:45'']"
    by code_simp
  have b: "slot_occupants stranger = []"
    by code_simp
  have c: "\<not> all_pairs_occupied stranger (teams stranger ! 0)"
    by code_simp
  have d: "analyze_conflict remdups stranger (teams stranger ! 0) = AllSlotsOccupied []"
    by code_simp
  have e: "map_option team_assignments (run_continuous remdups stranger) =
     Some [(''T1'', None, None, Some (AllSlotsOccupied []))]"
    by code_simp
  show ?thesis using a b c d e by simp
qed

section \<open>The backtracking engine\<close>

lemma ostatic_upd_assigned [simp]:
  "ostatic (st\<lparr>oschedule := sch, oteams := (oteams st)[i := (oteams st ! i)\<lparr>oassigned_slot := a\<rparr>]\<rparr>)
     = ostatic st"
  by (cases "i < length (oteams st)")
    (simp_all add: ostatic_def map_update list_update_same_conv list_update_beyond)

lemma first_success_cong_head:
  "f x = None \<Longrightarrow> first_success f (x # xs) = first_success f xs"
  by simp

lemma ostatic_name: "i < length (oteams st) \<Longrightarrow> oname (oteams st ! i) = fst (ostatic st ! i)"
  by (simp add: ostatic_def)

lemma ostatic_avail: "i < length (oteams st) \<Longrightarrow> oavailable_slots (oteams st ! i) = snd (ostatic st ! i)"
  by (simp add: ostatic_def)

lemma ostatic_length: "length (ostatic st) = length (oteams st)"
  by (simp add: ostatic_def)

lemma try_slots_refines:
  assumes K: "refines k S F" and len: "i < length S"
  shows "ostatic st = S \<Longrightarrow> fst (S ! i) \<notin> asg \<Longrightarrow>
     (\<exists>st'. ostatic st' = S \<and>
        (case first_success
                (\<lambda>slot. if slot \<in> fst ` set (oschedule st) then None
                        else F (AList.update slot (fst (S ! i)) (oschedule st), insert (fst (S ! i)) asg))
                slots of
           None \<Rightarrow> try_slots k i slots (st, asg) = Some (False, st', asg) \<and> oschedule st' = oschedule st
         | Some (sched', asg') \<Rightarrow>
             try_slots k i slots (st, asg) = Some (True, st', asg') \<and> oschedule st' = sched'))"
proof (induction slots arbitrary: st)
  case Nil
  then show ?case by auto
next
  case (Cons slot rest)
  have nm: "oname (oteams st ! i) = fst (S ! i)"
    using Cons.prems(1) len ostatic_name[of i st] by (simp add: ostatic_length[symmetric])
  show ?case
  proof (cases "slot \<in> fst ` set (oschedule st)")
    case True
    have step: "try_slots k i (slot # rest) (st, asg) = try_slots k i rest (st, asg)"
      using True by simp
    show ?thesis
      unfolding step using Cons.IH[OF Cons.prems] True by (simp only: first_success_cong_head if_True)
  next
    case False
    let ?st1 = "st\<lparr>oschedule := AList.update slot (oname (oteams st ! i)) (oschedule st),
                    oteams := (oteams st)[i := (oteams st ! i)\<lparr>oassigned_slot := Some slot\<rparr>]\<rparr>"
    let ?asg1 = "insert (fst (S ! i)) asg"
    have s1: "ostatic ?st1 = S" using Cons.prems(1) by simp
    have sch1: "oschedule ?st1 = AList.update slot (fst (S ! i)) (oschedule st)"
      by (simp add: nm)
    from K s1 obtain st' where st': "ostatic st' = S"
      and kres: "(case F (oschedule ?st1, ?asg1) of
              None \<Rightarrow> k (?st1, ?asg1) = Some (False, st', ?asg1) \<and> oschedule st' = oschedule ?st1
            | Some (sched', asg') \<Rightarrow> k (?st1, ?asg1) = Some (True, st', asg') \<and> oschedule st' = sched')"
      unfolding refines_def by blast
    show ?thesis
    proof (cases "F (AList.update slot (fst (S ! i)) (oschedule st), ?asg1)")
      case (Some r)
      obtain sched' asg' where r: "r = (sched', asg')" by (cases r)
      have "k (?st1, ?asg1) = Some (True, st', asg') \<and> oschedule st' = sched'"
        using kres Some r sch1 by simp
      then show ?thesis
        using False Some r st' nm by auto
    next
      case None
      have kf: "k (?st1, ?asg1) = Some (False, st', ?asg1)" and sch': "oschedule st' = oschedule ?st1"
        using kres None sch1 by simp_all
      let ?st2 = "st'\<lparr>oschedule := AList.delete slot (oschedule st'),
                      oteams := (oteams st')[i := (oteams st' ! i)\<lparr>oassigned_slot := None\<rparr>]\<rparr>"
      have s2: "ostatic ?st2 = S" using st' by simp
      have sch2: "oschedule ?st2 = oschedule st"
        using sch' False by (simp add: delete_update_same)
      have asg2: "?asg1 - {fst (S ! i)} = asg" using Cons.prems(2) by auto
      have inkeys: "slot \<in> fst ` set (oschedule st')"
        using sch' by (simp add: dom_update)
      have step: "try_slots k i (slot # rest) (st, asg) = try_slots k i rest (?st2, asg)"
        using False kf inkeys nm asg2 by simp
      from Cons.IH[OF s2 Cons.prems(2)] show ?thesis
        unfolding step sch2 using False None by simp
    qed
  qed
qed

lemma backtrack_refines:
  "\<forall>i\<in>set later. i < length S \<Longrightarrow> refines (backtrack later) S (search S later)"
proof (induction later)
  case Nil
  show ?case by (auto simp: refines_def)
next
  case (Cons i later)
  then have K: "refines (backtrack later) S (search S later)" and len: "i < length S"
    by simp_all
  show ?case
    unfolding refines_def
  proof (intro allI impI)
    fix st asg assume S: "ostatic st = S"
    have nm: "oname (oteams st ! i) = fst (S ! i)"
      using S len ostatic_name[of i st] by (simp add: ostatic_length[symmetric])
    have av: "oavailable_slots (oteams st ! i) = snd (S ! i)"
      using S len ostatic_avail[of i st] by (simp add: ostatic_length[symmetric])
    show "\<exists>st'. ostatic st' = S \<and>
              (case search S (i # later) (oschedule st, asg) of
               None \<Rightarrow> backtrack (i # later) (st, asg) = Some (False, st', asg) \<and> oschedule st' = oschedule st
               | Some (sched', asg') \<Rightarrow>
                   backtrack (i # later) (st, asg) = Some (True, st', asg') \<and> oschedule st' = sched')"
    proof (cases "fst (S ! i) \<in> asg")
      case True
      have step: "backtrack (i # later) (st, asg) = backtrack later (st, asg)"
        using True nm by simp
      have step': "search S (i # later) (oschedule st, asg) = search S later (oschedule st, asg)"
        using True by simp
      show ?thesis
        unfolding step step' using K S unfolding refines_def by blast
    next
      case False
      have step: "backtrack (i # later) (st, asg) = try_slots (backtrack later) i (snd (S ! i)) (st, asg)"
        using False nm av by simp
      have step': "search S (i # later) (oschedule st, asg) =
          first_success
            (\<lambda>slot. if slot \<in> fst ` set (oschedule st) then None
                    else search S later (AList.update slot (fst (S ! i)) (oschedule st), insert (fst (S ! i)) asg))
            (snd (S ! i))"
        using False by (simp cong: if_cong)
      show ?thesis
        unfolding step step' using try_slots_refines[OF K len S False, of "snd (S ! i)"] .
    qed
  qed
qed

lemma first_success_Some:
  "first_success f xs = Some r \<Longrightarrow> \<exists>x\<in>set xs. f x = Some r"
  by (induction xs) (auto split: option.splits)

lemma first_success_None_iff:
  "first_success f xs = None \<longleftrightarrow> (\<forall>x\<in>set xs. f x = None)"
  by (induction xs) (auto split: option.splits)

lemma update_new_key:
  "k \<notin> fst ` set al \<Longrightarrow> AList.update k v al = al @ [(k, v)]"
  by (induction al) auto

lemma search_sound:
  "search S later p = Some r \<Longrightarrow> sound_search S later p r"
proof (induction later arbitrary: p)
  case Nil
  then show ?case by (auto simp: sound_search_def)
next
  case (Cons i later)
  obtain sched asg where p: "p = (sched, asg)" by (cases p)
  show ?case
  proof (cases "fst (S ! i) \<in> asg")
    case True
    then have "search S later p = Some r" using Cons.prems p by simp
    then have "sound_search S later p r" by (rule Cons.IH)
    then show ?thesis using True p unfolding sound_search_def by auto
  next
    case False
    let ?n = "fst (S ! i)"
    from Cons.prems False p
    have "first_success
            (\<lambda>slot. if slot \<in> fst ` set sched then None
                    else search S later (AList.update slot ?n sched, insert ?n asg))
            (snd (S ! i)) = Some r"
      by (simp cong: if_cong)
    then obtain slot where slot: "slot \<in> set (snd (S ! i))"
      and res: "(if slot \<in> fst ` set sched then None
                 else search S later (AList.update slot ?n sched, insert ?n asg)) = Some r"
      by (blast dest: first_success_Some)
    then have new: "slot \<notin> fst ` set sched"
      and rec: "search S later (sched @ [(slot, ?n)], insert ?n asg) = Some r"
      by (auto split: if_splits simp: update_new_key)
    have IH: "sound_search S later (sched @ [(slot, ?n)], insert ?n asg) r"
      using rec by (rule Cons.IH)
    have nval: "snd ` set sched \<subseteq> asg \<Longrightarrow> ?n \<notin> snd ` set sched"
      using False by auto
    show ?thesis
      unfolding sound_search_def p
    proof (intro conjI)
      show "set (fst (sched, asg)) \<subseteq> set (fst r)"
        using IH unfolding sound_search_def by auto
      show "\<forall>j\<in>set (i # later). fst (S ! j) \<in> snd r"
        using IH unfolding sound_search_def by auto
      show "\<forall>e\<in>set (fst r) - set (fst (sched, asg)).
              \<exists>j\<in>set (i # later). fst (S ! j) = snd e \<and> fst e \<in> set (snd (S ! j))"
      proof
        fix e assume e: "e \<in> set (fst r) - set (fst (sched, asg))"
        show "\<exists>j\<in>set (i # later). fst (S ! j) = snd e \<and> fst e \<in> set (snd (S ! j))"
        proof (cases "e = (slot, ?n)")
          case True
          then show ?thesis using slot by auto
        next
          case False
          then have "e \<in> set (fst r) - set (fst (sched @ [(slot, ?n)], insert ?n asg))"
            using e by auto
          then show ?thesis using IH unfolding sound_search_def by fastforce
        qed
      qed
      have in_r: "(slot, ?n) \<in> set (fst r)" and notin: "(slot, ?n) \<notin> set sched"
        using IH new unfolding sound_search_def by (auto simp: image_iff)
      have r1: "snd r = insert ?n asg \<union> snd ` (set (fst r) - set (sched @ [(slot, ?n)]))"
        using IH unfolding sound_search_def by simp
      have D: "set (fst r) - set sched = insert (slot, ?n) (set (fst r) - set (sched @ [(slot, ?n)]))"
        using in_r notin by auto
      have "snd r = asg \<union> snd ` (set (fst r) - set sched)"
        unfolding D using r1 by simp
      then show "snd r = snd (sched, asg) \<union> snd ` (set (fst r) - set (fst (sched, asg)))"
        by simp
      show "distinct (map fst (fst (sched, asg))) \<longrightarrow> distinct (map fst (fst r))"
        using IH new unfolding sound_search_def by auto
      show "distinct (map snd (fst (sched, asg))) \<and> snd ` set (fst (sched, asg)) \<subseteq> snd (sched, asg)
            \<longrightarrow> distinct (map snd (fst r))"
        using IH nval unfolding sound_search_def by auto
    qed
  qed
qed

lemma search_complete:
  assumes "\<forall>i\<in>set later. g i \<in> set (snd (S ! i))"
    and "\<forall>i\<in>set later. fst (S ! i) \<notin> asg \<longrightarrow> g i \<notin> fst ` set sched"
    and "\<forall>i\<in>set later. \<forall>j\<in>set later. fst (S ! i) \<noteq> fst (S ! j) \<longrightarrow> g i \<noteq> g j"
  shows "search S later (sched, asg) \<noteq> None"
  using assms
proof (induction later arbitrary: sched asg)
  case Nil
  then show ?case by simp
next
  case (Cons i later)
  have p1: "\<forall>j\<in>set later. g j \<in> set (snd (S ! j))"
    using Cons.prems(1) by simp
  have p2: "\<forall>j\<in>set later. fst (S ! j) \<notin> asg \<longrightarrow> g j \<notin> fst ` set sched"
    using Cons.prems(2) by simp
  have p3: "\<forall>a\<in>set later. \<forall>b\<in>set later. fst (S ! a) \<noteq> fst (S ! b) \<longrightarrow> g a \<noteq> g b"
    using Cons.prems(3) by simp
  have p4: "\<forall>j\<in>set later. fst (S ! j) \<noteq> fst (S ! i) \<longrightarrow> g j \<noteq> g i"
    using Cons.prems(3) by simp
  show ?case
  proof (cases "fst (S ! i) \<in> asg")
    case True
    have "search S later (sched, asg) \<noteq> None"
      using p1 p2 p3 by (rule Cons.IH)
    then show ?thesis using True by simp
  next
    case False
    let ?n = "fst (S ! i)"
    define f where "f = (\<lambda>slot. if slot \<in> fst ` set sched then None
                    else search S later (AList.update slot ?n sched, insert ?n asg))"
    have gi: "g i \<in> set (snd (S ! i))"
      using Cons.prems(1) by simp
    have fresh: "g i \<notin> fst ` set sched"
      using Cons.prems(2) False by simp
    have q2: "\<forall>j\<in>set later. fst (S ! j) \<notin> insert ?n asg \<longrightarrow>
              g j \<notin> fst ` set (AList.update (g i) ?n sched)"
    proof (intro ballI impI)
      fix j assume j: "j \<in> set later" and nj: "fst (S ! j) \<notin> insert ?n asg"
      have "g j \<noteq> g i" using p4 j nj by simp
      moreover have "g j \<notin> fst ` set sched" using p2 j nj by simp
      ultimately show "g j \<notin> fst ` set (AList.update (g i) ?n sched)"
        by (simp add: dom_update)
    qed
    have "search S later (AList.update (g i) ?n sched, insert ?n asg) \<noteq> None"
      using p1 q2 p3 by (rule Cons.IH)
    then have "f (g i) \<noteq> None"
      using fresh by (simp add: f_def)
    then have "\<not> (\<forall>x\<in>set (snd (S ! i)). f x = None)"
      using gi by auto
    then have "first_success f (snd (S ! i)) \<noteq> None"
      by (simp only: first_success_None_iff not_False_eq_True)
    then show ?thesis using False unfolding f_def by (simp cong: if_cong)
  qed
qed

lemma feasible_record_function:
  assumes "feasible_assignment ts"
  shows "\<exists>F. inj_on F (set ts) \<and> (\<forall>t\<in>set ts. F t \<in> set (oavailable_slots t))"
proof -
  from assms obtain f where inj: "inj_on f {..<length ts}"
    and adm: "\<forall>i<length ts. f i \<in> set (oavailable_slots (ts ! i))"
    unfolding feasible_assignment_def by blast
  define pos where "pos t = (LEAST i. i < length ts \<and> ts ! i = t)" for t
  have pos: "pos t < length ts \<and> ts ! pos t = t" if "t \<in> set ts" for t
  proof -
    from that obtain i where "i < length ts \<and> ts ! i = t"
      by (auto simp: in_set_conv_nth)
    then show ?thesis unfolding pos_def by (rule LeastI)
  qed
  have "inj_on (\<lambda>t. f (pos t)) (set ts)"
  proof (rule inj_onI)
    fix t u assume t: "t \<in> set ts" and u: "u \<in> set ts" and eq: "f (pos t) = f (pos u)"
    have "pos t = pos u"
      using inj eq pos[OF t] pos[OF u] by (auto dest: inj_onD)
    then show "t = u" using pos[OF t] pos[OF u] by metis
  qed
  moreover have "\<forall>t\<in>set ts. f (pos t) \<in> set (oavailable_slots t)"
    using adm pos by metis
  ultimately show ?thesis by blast
qed

lemma refines_Some:
  assumes "refines k S F" and "ostatic st = S" and "F (oschedule st, asg) = Some (sched', asg')"
  shows "\<exists>st'. ostatic st' = S \<and> k (st, asg) = Some (True, st', asg') \<and> oschedule st' = sched'"
proof -
  from assms(1,2) obtain st' where s: "ostatic st' = S"
    and c: "(case F (oschedule st, asg) of
              None \<Rightarrow> k (st, asg) = Some (False, st', asg) \<and> oschedule st' = oschedule st
            | Some (sched', asg') \<Rightarrow> k (st, asg) = Some (True, st', asg') \<and> oschedule st' = sched')"
    unfolding refines_def by blast
  from c assms(3) have "k (st, asg) = Some (True, st', asg') \<and> oschedule st' = sched'"
    by simp
  with s show ?thesis by blast
qed

lemma refines_None:
  assumes "refines k S F" and "ostatic st = S" and "F (oschedule st, asg) = None"
  shows "\<exists>st'. ostatic st' = S \<and> k (st, asg) = Some (False, st', asg) \<and> oschedule st' = oschedule st"
proof -
  from assms(1,2) obtain st' where s: "ostatic st' = S"
    and c: "(case F (oschedule st, asg) of
              None \<Rightarrow> k (st, asg) = Some (False, st', asg) \<and> oschedule st' = oschedule st
            | Some (sched', asg') \<Rightarrow> k (st, asg) = Some (True, st', asg') \<and> oschedule st' = sched')"
    unfolding refines_def by blast
  from c assms(3) have "k (st, asg) = Some (False, st', asg) \<and> oschedule st' = oschedule st"
    by simp
  with s show ?thesis by blast
qed

lemma ostatic_backtrack_start:
  "ostatic (fst (backtrack_start st)) =
     map (\<lambda>t. (oname t, oavailable_slots t)) (sort_key (\<lambda>t. length (oavailable_slots t)) (oteams st))"
  by (simp add: backtrack_start_def ostatic_def)

lemma backtrack_start_parts:
  "oschedule (fst (backtrack_start st)) = []" "snd (backtrack_start st) = {}"
  "length (oteams (fst (backtrack_start st))) = length (oteams st)"
  by (simp_all add: backtrack_start_def)

lemma greedy_slots_sound:
  assumes "i < length (oteams st)" and "set slots \<subseteq> set (oavailable_slots (oteams st ! i))"
    and "admissible_entries (ostatic st) (oschedule st)"
  shows "ostatic (greedy_slots i slots st) = ostatic st \<and>
         admissible_entries (ostatic st) (oschedule (greedy_slots i slots st))"
  using assms
proof (induction slots)
  case Nil
  then show ?case by simp
next
  case (Cons slot rest)
  show ?case
  proof (cases "slot \<in> fst ` set (oschedule st)")
    case True
    then show ?thesis using Cons by simp
  next
    case False
    have p: "(oname (oteams st ! i), oavailable_slots (oteams st ! i)) \<in> set (ostatic st)"
      using Cons.prems(1) by (auto simp: ostatic_def)
    have "admissible_entries (ostatic st) (oschedule st @ [(slot, oname (oteams st ! i))])"
      using Cons.prems(2,3) p unfolding admissible_entries_def by force
    then show ?thesis using False by (simp add: update_new_key)
  qed
qed

lemma greedy_teams_sound:
  assumes "\<forall>i\<in>set order. i < length (oteams st)"
    and "admissible_entries (ostatic st) (oschedule st)"
  shows "ostatic (greedy_teams order st) = ostatic st \<and>
         admissible_entries (ostatic st) (oschedule (greedy_teams order st))"
  using assms
proof (induction order arbitrary: st)
  case Nil
  then show ?case by simp
next
  case (Cons i rest)
  let ?st1 = "greedy_slots i (oavailable_slots (oteams st ! i)) st"
  have i: "i < length (oteams st)" using Cons.prems(1) by simp
  have one: "ostatic ?st1 = ostatic st \<and> admissible_entries (ostatic st) (oschedule ?st1)"
    using greedy_slots_sound[OF i _ Cons.prems(2)] by simp
  have len: "length (oteams ?st1) = length (oteams st)"
    using one by (metis ostatic_length)
  have "ostatic (greedy_teams rest ?st1) = ostatic ?st1 \<and>
        admissible_entries (ostatic ?st1) (oschedule (greedy_teams rest ?st1))"
    using Cons.prems(1) one len by (intro Cons.IH) auto
  then show ?case using one by simp
qed

lemma set_ostatic: "set (ostatic st) = (\<lambda>t. (oname t, oavailable_slots t)) ` set (oteams st)"
  by (simp add: ostatic_def)

lemma greedy_scheduling_sound:
  "admissible_entries (ostatic st) (fst (greedy_scheduling st))"
proof -
  let ?st0 = "st\<lparr>oschedule := []\<rparr>"
  have s0: "ostatic ?st0 = ostatic st" by (simp add: ostatic_def)
  have "osorted_teams st = osorted_teams ?st0" by (simp add: osorted_teams_def)
  moreover have "\<forall>i\<in>set (osorted_teams ?st0). i < length (oteams ?st0)"
    by (simp add: osorted_teams_def)
  moreover have "admissible_entries (ostatic ?st0) (oschedule ?st0)"
    by (simp add: admissible_entries_def)
  ultimately have "admissible_entries (ostatic ?st0) (oschedule (greedy_teams (osorted_teams st) ?st0))"
    using greedy_teams_sound[of "osorted_teams ?st0" ?st0] by simp
  then show ?thesis by (simp add: greedy_scheduling_def Let_def s0)
qed

lemma admissible_entries_set:
  "set S = set S' \<Longrightarrow> admissible_entries S sched = admissible_entries S' sched"
  by (simp add: admissible_entries_def)

lemma backtrack_scheduling_sound:
  "\<exists>sched st'. backtrack_scheduling st = Some (sched, st') \<and> admissible_entries (ostatic st) sched"
proof -
  let ?n = "length (oteams st)"
  let ?S = "ostatic (fst (backtrack_start st))"
  have setS: "set ?S = set (ostatic st)"
    by (simp add: ostatic_def backtrack_start_def)
  have lenS: "length ?S = ?n" by (simp add: ostatic_backtrack_start)
  have valid: "\<forall>i\<in>set [0..<?n]. i < length ?S" by (simp add: lenS)
  have ref: "refines (backtrack [0..<?n]) ?S (search ?S [0..<?n])"
    using backtrack_refines[OF valid] .
  have start: "backtrack_start st = (fst (backtrack_start st), {})"
    using backtrack_start_parts(2)[of st] by (metis prod.collapse)
  show ?thesis
  proof (cases "search ?S [0..<?n] (oschedule (fst (backtrack_start st)), {})")
    case None
    from refines_None[OF ref refl None] obtain st' where st': "ostatic st' = ?S"
      and run: "backtrack [0..<?n] (fst (backtrack_start st), {}) = Some (False, st', {})"
      by blast
    have "backtrack [0..<?n] (backtrack_start st) = Some (False, st', {})"
      using run start by simp
    then have res: "backtrack_scheduling st = Some (greedy_scheduling st')"
      by (simp add: backtrack_scheduling_def backtrack_start_parts)
    have "admissible_entries (ostatic st') (fst (greedy_scheduling st'))"
      by (rule greedy_scheduling_sound)
    then have "admissible_entries (ostatic st) (fst (greedy_scheduling st'))"
      using st' setS admissible_entries_set by metis
    then show ?thesis using res by (metis prod.collapse)
  next
    case (Some r)
    obtain sched' asg' where r: "r = (sched', asg')" by (cases r)
    from refines_Some[OF ref refl Some[unfolded r]] obtain st' where st': "ostatic st' = ?S"
      and run: "backtrack [0..<?n] (fst (backtrack_start st), {}) = Some (True, st', asg')"
      and sch: "oschedule st' = sched'"
      by blast
    have "backtrack [0..<?n] (backtrack_start st) = Some (True, st', asg')"
      using run start by simp
    then have res: "backtrack_scheduling st = Some (sched', st')"
      using sch by (simp add: backtrack_scheduling_def backtrack_start_parts)
    have "sound_search ?S [0..<?n] ([], {}) (sched', asg')"
      using Some r search_sound by (simp add: backtrack_start_parts)
    then have ent: "\<forall>e\<in>set sched' - set []. \<exists>i\<in>set [0..<?n]. fst (?S ! i) = snd e \<and> fst e \<in> set (snd (?S ! i))"
      unfolding sound_search_def fst_conv snd_conv by blast
    have "admissible_entries ?S sched'"
      unfolding admissible_entries_def
    proof
      fix e assume "e \<in> set sched'"
      then obtain i where "i < ?n" and "fst (?S ! i) = snd e \<and> fst e \<in> set (snd (?S ! i))"
        using ent by auto
      then show "\<exists>p\<in>set ?S. fst p = snd e \<and> fst e \<in> set (snd p)"
        using lenS by (metis nth_mem)
    qed
    then have "admissible_entries (ostatic st) sched'"
      using setS admissible_entries_set by metis
    then show ?thesis using res by blast
  qed
qed

text \<open>
  C5, as amended. When a feasible full assignment exists and the names of the teams are
  pairwise distinct, the backtracking search itself succeeds (the flag it returns is
  \<open>True\<close>, so the greedy engine is not called) and every team is placed: the schedule
  returned holds, for every team, an entry that puts its name into a slot of its own
  availability; every entry puts a name into a slot of the availability of the team of
  that name, and no slot and no name occurs twice. The capacity bound is not needed as a
  hypothesis.
\<close>

theorem backtracking_places_every_team:
  assumes "feasible_assignment (oteams st)" and "distinct (oteam_names st)"
  shows "\<exists>st' assigned.
     backtrack [0..<length (oteams st)] (backtrack_start st) = Some (True, st', assigned) \<and>
     backtrack_scheduling st = Some (oschedule st', st') \<and>
     (\<forall>t\<in>set (oteams st). \<exists>slot\<in>set (oavailable_slots t). (slot, oname t) \<in> set (oschedule st')) \<and>
     (\<forall>e\<in>set (oschedule st'). \<exists>t\<in>set (oteams st). oname t = snd e \<and> fst e \<in> set (oavailable_slots t)) \<and>
     distinct (map fst (oschedule st')) \<and> distinct (map snd (oschedule st'))"
proof -
  let ?ts = "sort_key (\<lambda>t. length (oavailable_slots t)) (oteams st)"
  let ?S = "ostatic (fst (backtrack_start st))"
  let ?n = "length (oteams st)"
  have S: "?S = map (\<lambda>t. (oname t, oavailable_slots t)) ?ts"
    by (rule ostatic_backtrack_start)
  have lenS: "length ?S = ?n" by (simp add: S)
  have nth: "\<And>i. i < ?n \<Longrightarrow> ?S ! i = (oname (?ts ! i), oavailable_slots (?ts ! i))"
    by (simp add: S)
  have mem: "\<And>i. i < ?n \<Longrightarrow> ?ts ! i \<in> set (oteams st)"
    by (metis length_sort nth_mem set_sort)
  from feasible_record_function[OF assms(1)] obtain F where
    inj: "inj_on F (set (oteams st))" and adm: "\<forall>t\<in>set (oteams st). F t \<in> set (oavailable_slots t)"
    by blast
  define g where "g i = F (?ts ! i)" for i
  have c1: "\<forall>i\<in>set [0..<?n]. g i \<in> set (snd (?S ! i))"
    using adm mem by (simp add: g_def nth)
  have c2: "\<forall>i\<in>set [0..<?n]. fst (?S ! i) \<notin> {} \<longrightarrow> g i \<notin> fst ` set ([]::(slot \<times> tname) list)"
    by simp
  have c3: "\<forall>i\<in>set [0..<?n]. \<forall>j\<in>set [0..<?n]. fst (?S ! i) \<noteq> fst (?S ! j) \<longrightarrow> g i \<noteq> g j"
  proof (intro ballI impI)
    fix i j assume i: "i \<in> set [0..<?n]" and j: "j \<in> set [0..<?n]"
      and ne: "fst (?S ! i) \<noteq> fst (?S ! j)"
    have "?ts ! i \<noteq> ?ts ! j" using ne i j by (auto simp: nth)
    then show "g i \<noteq> g j"
      using inj mem i j unfolding g_def by (auto dest: inj_onD)
  qed
  from search_complete[of "[0..<?n]" g ?S "{}" "[]", OF c1 c2 c3]
  obtain sched' asg' where found: "search ?S [0..<?n] ([], {}) = Some (sched', asg')"
    by auto
  have valid: "\<forall>i\<in>set [0..<?n]. i < length ?S" by (simp add: lenS)
  from backtrack_refines[OF valid] have ref: "refines (backtrack [0..<?n]) ?S (search ?S [0..<?n])" .
  have found': "search ?S [0..<?n] (oschedule (fst (backtrack_start st)), {}) = Some (sched', asg')"
    using found by (simp add: backtrack_start_parts)
  from refines_Some[OF ref refl found'] obtain st' where st': "ostatic st' = ?S"
    and run: "backtrack [0..<?n] (fst (backtrack_start st), {}) = Some (True, st', asg')"
    and sch: "oschedule st' = sched'"
    by blast
  have start: "backtrack_start st = (fst (backtrack_start st), {})"
    using backtrack_start_parts(2)[of st] by (metis prod.collapse)
  have run': "backtrack [0..<?n] (backtrack_start st) = Some (True, st', asg')"
    using run start by simp
  have res: "backtrack_scheduling st = Some (oschedule st', st')"
    using run' by (simp add: backtrack_scheduling_def backtrack_start_parts)
  have snd: "sound_search ?S [0..<?n] ([], {}) (sched', asg')"
    using found by (rule search_sound)
  have s_names: "\<forall>i\<in>set [0..<?n]. fst (?S ! i) \<in> asg'"
    and s_entries: "\<forall>e\<in>set sched' - set []. \<exists>i\<in>set [0..<?n]. fst (?S ! i) = snd e \<and> fst e \<in> set (snd (?S ! i))"
    and s_asg: "asg' = {} \<union> snd ` (set sched' - set [])"
    and s_keys: "distinct (map fst ([]::(slot \<times> tname) list)) \<longrightarrow> distinct (map fst sched')"
    and s_vals: "distinct (map snd ([]::(slot \<times> tname) list)) \<and> snd ` set ([]::(slot \<times> tname) list) \<subseteq> {}
                 \<longrightarrow> distinct (map snd sched')"
    using snd unfolding sound_search_def fst_conv snd_conv by blast+
  have names: "\<forall>t\<in>set (oteams st). oname t \<in> snd ` set sched'"
  proof
    fix t assume "t \<in> set (oteams st)"
    then have "t \<in> set ?ts" by simp
    then obtain i where i: "i < ?n" and t: "?ts ! i = t"
      by (metis in_set_conv_nth length_sort)
    have "fst (?S ! i) \<in> asg'"
      using s_names i by simp
    then have "oname t \<in> asg'"
      using i t by (simp add: nth)
    then show "oname t \<in> snd ` set sched'"
      using s_asg by simp
  qed
  have entries: "\<forall>e\<in>set sched'. \<exists>t\<in>set (oteams st). oname t = snd e \<and> fst e \<in> set (oavailable_slots t)"
  proof
    fix e assume "e \<in> set sched'"
    then obtain i where i: "i < ?n" and "fst (?S ! i) = snd e \<and> fst e \<in> set (snd (?S ! i))"
      using s_entries by auto
    then have "oname (?ts ! i) = snd e \<and> fst e \<in> set (oavailable_slots (?ts ! i))"
      by (simp add: nth)
    then show "\<exists>t\<in>set (oteams st). oname t = snd e \<and> fst e \<in> set (oavailable_slots t)"
      using mem[OF i] by blast
  qed
  have dist: "distinct (map fst sched') \<and> distinct (map snd sched')"
    using s_keys s_vals by simp
  have own: "distinct (map oname (oteams st)) \<longrightarrow>
        (\<forall>t\<in>set (oteams st). \<exists>slot\<in>set (oavailable_slots t). (slot, oname t) \<in> set sched')"
  proof (intro impI ballI)
    fix t assume d: "distinct (map oname (oteams st))" and t: "t \<in> set (oteams st)"
    from names t obtain e where e: "e \<in> set sched'" and ne: "snd e = oname t" by force
    from entries e obtain u where u: "u \<in> set (oteams st)" and nu: "oname u = snd e"
      and au: "fst e \<in> set (oavailable_slots u)" by blast
    have "inj_on oname (set (oteams st))" using d by (simp add: distinct_map)
    then have "u = t" using u t nu ne by (auto dest: inj_onD)
    then show "\<exists>slot\<in>set (oavailable_slots t). (slot, oname t) \<in> set sched'"
      using au e ne by (metis prod.collapse)
  qed
  have "distinct (map oname (oteams st))"
    using assms(2) by (simp add: oteam_names_def)
  then have placed: "\<forall>t\<in>set (oteams st). \<exists>slot\<in>set (oavailable_slots t). (slot, oname t) \<in> set sched'"
    using own by simp
  show ?thesis
    using run' res placed entries dist sch by blast
qed

text \<open>
  The witness: on \<open>dead_end\<close> the search has to undo the first choice of A; the greedy engine
  alone places only two of the three teams.
\<close>

theorem backtracking_places_every_team_witness:
  "feasible_assignment (oteams dead_end) \<and> distinct (oteam_names dead_end) \<and>
   (\<exists>st' assigned.
     backtrack [0..<length (oteams dead_end)] (backtrack_start dead_end) = Some (True, st', assigned) \<and>
     backtrack_scheduling dead_end = Some (oschedule st', st') \<and>
     (\<forall>t\<in>set (oteams dead_end).
        \<exists>slot\<in>set (oavailable_slots t). (slot, oname t) \<in> set (oschedule st'))) \<and>
   map_option fst (backtrack_scheduling dead_end) =
     Some [(''9/12 19:45-20:30'', ''A''), (''9/12 19:00-19:45'', ''B''),
           (''9/12 20:30-21:15'', ''C'')] \<and>
   fst (greedy_scheduling dead_end) =
     [(''9/12 19:00-19:45'', ''A''), (''9/12 20:30-21:15'', ''B'')]"
proof -
  have feasible: "feasible_assignment (oteams dead_end)"
    unfolding feasible_assignment_def
  proof (intro exI conjI allI impI)
    let ?f = "\<lambda>i::nat. [''9/12 19:45-20:30'', ''9/12 19:00-19:45'', ''9/12 20:30-21:15''] ! i"
    have len: "length (oteams dead_end) = 3"
      by (simp add: dead_end_def oadd_team_def new_oscheduler_def)
    have set3: "{..<3::nat} = {0, 1, 2}" by auto
    show "inj_on ?f {..<length (oteams dead_end)}"
      unfolding len set3 by simp
    fix i assume "i < length (oteams dead_end)"
    then have "i = 0 \<or> i = 1 \<or> i = 2" unfolding len by auto
    then show "?f i \<in> set (oavailable_slots (oteams dead_end ! i))"
      by (auto simp: dead_end_def oadd_team_def new_oscheduler_def)
  qed
  have searched: "map_option fst (backtrack_scheduling dead_end) =
     Some [(''9/12 19:45-20:30'', ''A''), (''9/12 19:00-19:45'', ''B''),
           (''9/12 20:30-21:15'', ''C'')]"
    by code_simp
  have greedy: "fst (greedy_scheduling dead_end) =
     [(''9/12 19:00-19:45'', ''A''), (''9/12 20:30-21:15'', ''B'')]"
    by code_simp
  have names: "distinct (oteam_names dead_end)"
    by (simp add: oteam_names_def dead_end_def oadd_team_def new_oscheduler_def)
  from backtracking_places_every_team[OF feasible names]
  have "\<exists>st' assigned.
     backtrack [0..<length (oteams dead_end)] (backtrack_start dead_end) = Some (True, st', assigned) \<and>
     backtrack_scheduling dead_end = Some (oschedule st', st') \<and>
     (\<forall>t\<in>set (oteams dead_end).
        \<exists>slot\<in>set (oavailable_slots t). (slot, oname t) \<in> set (oschedule st'))"
    by blast
  then show ?thesis using feasible names searched greedy by blast
qed

lemma twins_feasible: "feasible_assignment (oteams twins)"
  unfolding feasible_assignment_def
proof (intro exI conjI allI impI)
  let ?f = "\<lambda>i::nat. [''9/12 19:00-19:45'', ''9/12 19:45-20:30''] ! i"
  have len: "length (oteams twins) = 2"
    by (simp add: twins_def oadd_team_def new_oscheduler_def)
  have set2: "{..<2::nat} = {0, 1}" by auto
  show "inj_on ?f {..<length (oteams twins)}"
    unfolding len set2 by simp
  fix i assume "i < length (oteams twins)"
  then have "i = 0 \<or> i = 1" unfolding len by auto
  then show "?f i \<in> set (oavailable_slots (oteams twins ! i))"
    by (auto simp: twins_def oadd_team_def new_oscheduler_def)
qed

text \<open>
  The counterexample: two teams of the same name X, one for each of the first two Friday
  slots, so that a feasible full assignment exists. The search skips the second team,
  whose name is already in \<open>assigned_teams\<close>, and returns \<open>True\<close> with one entry in the
  schedule; the second team has no slot.
\<close>

theorem backtracking_skips_a_team_of_a_repeated_name:
  "feasible_assignment (oteams twins) \<and>
   oteam_names twins = [''X'', ''X''] \<and>
   map_option fst (backtrack [0..<length (oteams twins)] (backtrack_start twins)) = Some True \<and>
   map_option fst (backtrack_scheduling twins) = Some [(''9/12 19:00-19:45'', ''X'')] \<and>
   map_option (oassigned_slots \<circ> snd) (backtrack_scheduling twins) =
     Some [Some ''9/12 19:00-19:45'', None]"
proof -
  have a: "oteam_names twins = [''X'', ''X'']"
    by code_simp
  have b: "map_option fst (backtrack [0..<length (oteams twins)] (backtrack_start twins)) = Some True"
    by code_simp
  have c: "map_option fst (backtrack_scheduling twins) = Some [(''9/12 19:00-19:45'', ''X'')]"
    by code_simp
  have d: "map_option (oassigned_slots \<circ> snd) (backtrack_scheduling twins) =
     Some [Some ''9/12 19:00-19:45'', None]"
    by code_simp
  show ?thesis using twins_feasible a b c d by simp
qed

section \<open>The one-track engines and the inputs of the teams\<close>

lemma oassigned_update_input:
  "map oteam_input (ts[i := (ts ! i)\<lparr>oassigned_slot := x\<rparr>]) = map oteam_input ts"
  by (simp add: map_update oteam_input_def) (metis list_update_id map_update oteam_input_def)

lemma greedy_slots_input:
  "map oteam_input (oteams (greedy_slots i slots st)) = map oteam_input (oteams st)"
  by (induction slots) (simp_all add: oassigned_update_input)

lemma greedy_teams_input:
  "map oteam_input (oteams (greedy_teams order st)) = map oteam_input (oteams st)"
  by (induction order arbitrary: st) (simp_all add: greedy_slots_input)

lemma greedy_scheduling_input:
  "map oteam_input (oteams (snd (greedy_scheduling st))) = map oteam_input (oteams st)"
  by (simp add: greedy_scheduling_def Let_def greedy_teams_input)

lemma try_slots_input:
  assumes nt: "\<And>s b s' a'. next_team s = Some (b, s', a') \<Longrightarrow>
      map oteam_input (oteams s') = map oteam_input (oteams (fst s))"
  shows "try_slots next_team i slots (st, a) = Some (b, st', a') \<Longrightarrow>
      map oteam_input (oteams st') = map oteam_input (oteams st)"
proof (induction slots arbitrary: st a)
  case Nil
  then show ?case by simp
next
  case (Cons slot rest)
  show ?case
  proof (cases "slot \<in> fst ` set (oschedule st)")
    case True
    then show ?thesis using Cons by simp
  next
    case False
    let ?s1 = "(st\<lparr>oschedule := AList.update slot (oname (oteams st ! i)) (oschedule st),
                    oteams := (oteams st)[i := (oteams st ! i)\<lparr>oassigned_slot := Some slot\<rparr>]\<rparr>,
                 insert (oname (oteams st ! i)) a)"
    show ?thesis
    proof (cases "next_team ?s1")
      case None
      then show ?thesis using Cons.prems False by simp
    next
      case (Some r)
      obtain b1 s1 a1 where r: "r = (b1, s1, a1)" by (cases r)
      have in1: "map oteam_input (oteams s1) = map oteam_input (oteams st)"
        using nt[of ?s1 b1 s1 a1] Some r by (simp add: oassigned_update_input)
      show ?thesis
      proof (cases b1)
        case True
        then show ?thesis using Cons.prems False Some r in1 by simp
      next
        case False
        let ?s2 = "s1\<lparr>oschedule := AList.delete slot (oschedule s1),
                       oteams := (oteams s1)[i := (oteams s1 ! i)\<lparr>oassigned_slot := None\<rparr>]\<rparr>"
        have run: "try_slots next_team i rest (?s2, a1 - {oname (oteams st ! i)}) = Some (b, st', a')"
          using Cons.prems \<open>slot \<notin> fst ` set (oschedule st)\<close> Some r False
          by (simp split: if_splits)
        have "map oteam_input (oteams st') = map oteam_input (oteams ?s2)"
          using Cons.IH[OF run] .
        then show ?thesis using in1 by (simp add: oassigned_update_input)
      qed
    qed
  qed
qed

lemma backtrack_input:
  "backtrack order s = Some (b, s', a') \<Longrightarrow>
     map oteam_input (oteams s') = map oteam_input (oteams (fst s))"
proof (induction order arbitrary: s b s' a')
  case Nil
  then show ?case by auto
next
  case (Cons i later)
  show ?case
  proof (cases "oname (oteams (fst s) ! i) \<in> snd s")
    case True
    then show ?thesis using Cons by simp
  next
    case False
    then have "try_slots (backtrack later) i (oavailable_slots (oteams (fst s) ! i)) (fst s, snd s)
        = Some (b, s', a')"
      using Cons.prems by simp
    then show ?thesis
      using try_slots_input[of "backtrack later"] Cons.IH by blast
  qed
qed

lemma backtrack_scheduling_input:
  "\<exists>sched st'. backtrack_scheduling st = Some (sched, st') \<and>
     map oteam_input (oteams st') =
       map oteam_input (sort_key (\<lambda>t. length (oavailable_slots t)) (oteams st))"
proof -
  from backtrack_scheduling_sound[of st] obtain sched st' where
    res: "backtrack_scheduling st = Some (sched, st')" by blast
  let ?n = "length (oteams (fst (backtrack_start st)))"
  have start: "oteams (fst (backtrack_start st)) =
      sort_key (\<lambda>t. length (oavailable_slots t)) (oteams st)"
    by (simp add: backtrack_start_def)
  from res obtain b s1 a1 where run: "backtrack [0..<?n] (backtrack_start st) = Some (b, s1, a1)"
    by (auto simp: backtrack_scheduling_def split: option.splits)
  have in1: "map oteam_input (oteams s1) = map oteam_input (oteams (fst (backtrack_start st)))"
    using backtrack_input[OF run] .
  have "map oteam_input (oteams st') = map oteam_input (oteams s1)"
  proof (cases b)
    case True
    then show ?thesis using res run by (simp add: backtrack_scheduling_def)
  next
    case False
    then have "st' = snd (greedy_scheduling s1)"
      using res run by (simp add: backtrack_scheduling_def)
    then show ?thesis by (simp add: greedy_scheduling_input)
  qed
  then show ?thesis using res in1 start by simp
qed

lemma one_track_writes:
  "oassigned_slots dead_end = [None, None, None]"
  "oassigned_slots (snd (greedy_scheduling dead_end)) =
     [Some ''9/12 19:00-19:45'', Some ''9/12 20:30-21:15'', None]"
  "oteam_names long_first = [''A'', ''B'']"
  "map_option (oteam_names \<circ> snd) (backtrack_scheduling long_first) = Some [''B'', ''A'']"
  "map_option (oassigned_slots \<circ> snd) (backtrack_scheduling long_first) =
     Some [Some ''9/12 19:00-19:45'', Some ''9/12 19:45-20:30'']"
  by code_simp+

section \<open>The greedy engine stays within the availability\<close>

lemma within_availability_nth:
  "within_availability st =
     ((\<forall>i<length (teams st). \<forall>slot. assigned_slot (teams st ! i) = Some slot \<longrightarrow>
         slot \<in> set (available_slots (teams st ! i)) \<and>
         (\<exists>g. assigned_group (teams st ! i) = Some g \<and>
              occupant st slot g = Some (name (teams st ! i)))) \<and>
      (\<forall>slot g n. occupant st slot g = Some n \<longrightarrow>
         (\<exists>t\<in>set (teams st). name t = n \<and> slot \<in> set (available_slots t))))"
  unfolding within_availability_def by (simp add: all_set_conv_all_nth)

lemma run_continuous_result:
  "wf_scheduler st \<Longrightarrow> run_continuous so st = Some (greedy_result so st)"
  by (simp add: run_continuous_fold greedy_result_def)

lemma foldl_place_team_wf:
  "wf_scheduler st \<Longrightarrow> wf_scheduler (foldl (place_team so) st order)"
  by (induction order arbitrary: st) (simp_all add: place_team_wf)

lemma greedy_result_wf: "wf_scheduler st \<Longrightarrow> wf_scheduler (greedy_result so st)"
  by (simp add: greedy_result_def foldl_place_team_wf reset_wf)

lemma occupy_input: "map team_input (teams (occupy st i slot)) = map team_input (teams st)"
proof -
  have "\<And>f. map team_input ((teams st)[i := (teams st ! i)\<lparr>assigned_slot := Some slot, assigned_group := f\<rparr>])
      = map team_input (teams st)"
    by (simp add: map_update team_input_def) (metis list_update_id map_update team_input_def)
  then show ?thesis
    by (simp add: occupy_def split: option.split)
qed

lemma place_team_input:
  "map team_input (teams (place_team so st i)) = map team_input (teams st)"
proof -
  have "\<And>r. map team_input ((teams st)[i := (teams st ! i)\<lparr>conflict_reason := r\<rparr>])
      = map team_input (teams st)"
    by (simp add: map_update team_input_def) (metis list_update_id map_update team_input_def)
  then show ?thesis
    by (simp add: place_team_def leave_unassigned_def occupy_input split: option.split)
qed

lemma foldl_place_team_input:
  "map team_input (teams (foldl (place_team so) st order)) = map team_input (teams st)"
  by (induction order arbitrary: st) (simp_all add: place_team_input)

lemma reset_input:
  "map team_input (teams (reset_teams (reset_time_slots st))) = map team_input (teams st)"
  by (simp add: reset_teams_def reset_time_slots_def team_input_def comp_def)

lemma greedy_result_input:
  "map team_input (teams (greedy_result so st)) = map team_input (teams st)"
  by (simp add: greedy_result_def foldl_place_team_input reset_input)

lemma occupant_occupy:
  assumes "map_of (time_slots st) slot = Some ts"
  shows "occupant (occupy st i slot) s g =
     (if s = slot \<and> g = (if group_a_team ts = None then GA else GB)
      then Some (name (teams st ! i)) else occupant st s g)"
  using assms
  by (cases g) (auto simp: occupy_def occupant_def update_conv')

lemma occupy_team:
  assumes "map_of (time_slots st) slot = Some ts" and "i < length (teams st)"
  shows "teams (occupy st i slot) =
     (teams st)[i := (teams st ! i)\<lparr>assigned_slot := Some slot,
        assigned_group := Some (if group_a_team ts = None then GA else GB)\<rparr>]"
  using assms by (simp add: occupy_def)

lemma occupy_within:
  assumes inv: "within_availability st" and i: "i < length (teams st)"
    and ts: "map_of (time_slots st) slot = Some ts" and space: "has_space ts"
    and av: "slot \<in> set (available_slots (teams st ! i))"
  shows "within_availability (occupy st i slot)"
proof -
  let ?g = "if group_a_team ts = None then GA else GB"
  let ?st' = "occupy st i slot"
  have free: "occupant st slot ?g = None"
    using ts space by (auto simp: occupant_def has_space_def)
  have occ: "\<And>s g. occupant ?st' s g =
     (if s = slot \<and> g = ?g then Some (name (teams st ! i)) else occupant st s g)"
    using occupant_occupy[OF ts] by simp
  have tms: "teams ?st' = (teams st)[i := (teams st ! i)\<lparr>assigned_slot := Some slot,
        assigned_group := Some ?g\<rparr>]"
    using occupy_team[OF ts i] .
  have len: "length (teams ?st') = length (teams st)" by (simp add: tms)
  have one: "\<forall>j<length (teams ?st'). \<forall>s. assigned_slot (teams ?st' ! j) = Some s \<longrightarrow>
         s \<in> set (available_slots (teams ?st' ! j)) \<and>
         (\<exists>g. assigned_group (teams ?st' ! j) = Some g \<and>
              occupant ?st' s g = Some (name (teams ?st' ! j)))"
  proof (intro allI impI)
    fix j s assume j: "j < length (teams ?st')" and a: "assigned_slot (teams ?st' ! j) = Some s"
    show "s \<in> set (available_slots (teams ?st' ! j)) \<and>
         (\<exists>g. assigned_group (teams ?st' ! j) = Some g \<and>
              occupant ?st' s g = Some (name (teams ?st' ! j)))"
    proof (cases "j = i")
      case True
      have "s = slot" using a i True by (simp add: tms)
      then show ?thesis unfolding occ tms using True i av by simp
    next
      case False
      then have same: "teams ?st' ! j = teams st ! j" by (simp add: tms)
      have a': "assigned_slot (teams st ! j) = Some s" using a same by simp
      have j': "j < length (teams st)" using j len by simp
      have "s \<in> set (available_slots (teams st ! j)) \<and>
         (\<exists>g. assigned_group (teams st ! j) = Some g \<and>
              occupant st s g = Some (name (teams st ! j)))"
        using inv j' a' unfolding within_availability_nth by blast
      then obtain g where g: "s \<in> set (available_slots (teams st ! j))"
        "assigned_group (teams st ! j) = Some g"
        "occupant st s g = Some (name (teams st ! j))"
        by blast
      have "\<not> (s = slot \<and> g = ?g)" using g(3) free by auto
      then show ?thesis unfolding same occ using g by auto
    qed
  qed
  have two: "\<forall>s g n. occupant ?st' s g = Some n \<longrightarrow>
         (\<exists>t\<in>set (teams ?st'). name t = n \<and> s \<in> set (available_slots t))"
  proof (intro allI impI)
    fix s g n assume o: "occupant ?st' s g = Some n"
    show "\<exists>t\<in>set (teams ?st'). name t = n \<and> s \<in> set (available_slots t)"
    proof (cases "s = slot \<and> g = ?g")
      case True
      then have "n = name (teams st ! i)" using o by (simp add: occ)
      moreover have "teams ?st' ! i \<in> set (teams ?st')" using i len by (metis nth_mem)
      ultimately show ?thesis using True av i by (auto simp: tms intro!: bexI[of _ "teams ?st' ! i"])
    next
      case False
      then have "occupant st s g = Some n" using o unfolding occ by (auto split: if_splits)
      then obtain t where t: "t \<in> set (teams st)" "name t = n" "s \<in> set (available_slots t)"
        using inv unfolding within_availability_nth by blast
      then obtain j where j: "j < length (teams st)" "teams st ! j = t"
        by (auto simp: in_set_conv_nth)
      have "teams ?st' ! j \<in> set (teams ?st')" using j len by (metis nth_mem)
      moreover have "name (teams ?st' ! j) = n \<and> s \<in> set (available_slots (teams ?st' ! j))"
        using j t by (cases "j = i") (auto simp: tms)
      ultimately show ?thesis by blast
    qed
  qed
  show ?thesis unfolding within_availability_nth using one two by blast
qed

lemma leave_unassigned_within:
  assumes "within_availability st"
  shows "within_availability (leave_unassigned so st i)"
proof -
  let ?st' = "leave_unassigned so st i"
  have occ: "\<And>s g. occupant ?st' s g = occupant st s g"
    by (simp add: occupant_def leave_unassigned_def)
  have len: "length (teams ?st') = length (teams st)" by (simp add: leave_unassigned_def)
  have fld: "name (teams ?st' ! j) = name (teams st ! j) \<and>
      available_slots (teams ?st' ! j) = available_slots (teams st ! j) \<and>
      assigned_slot (teams ?st' ! j) = assigned_slot (teams st ! j) \<and>
      assigned_group (teams ?st' ! j) = assigned_group (teams st ! j)"
    if "j < length (teams st)" for j
    using that by (cases "j = i") (simp_all add: leave_unassigned_def)
  have one: "\<forall>j<length (teams ?st'). \<forall>s. assigned_slot (teams ?st' ! j) = Some s \<longrightarrow>
         s \<in> set (available_slots (teams ?st' ! j)) \<and>
         (\<exists>g. assigned_group (teams ?st' ! j) = Some g \<and>
              occupant ?st' s g = Some (name (teams ?st' ! j)))"
    using assms unfolding within_availability_nth len occ by (simp add: fld)
  have two: "\<forall>s g n. occupant ?st' s g = Some n \<longrightarrow>
         (\<exists>t\<in>set (teams ?st'). name t = n \<and> s \<in> set (available_slots t))"
  proof (intro allI impI)
    fix s g n assume "occupant ?st' s g = Some n"
    then have "occupant st s g = Some n" by (simp add: occ)
    then obtain t where t: "t \<in> set (teams st)" "name t = n" "s \<in> set (available_slots t)"
      using assms unfolding within_availability_nth by blast
    then obtain j where j: "j < length (teams st)" "teams st ! j = t"
      by (auto simp: in_set_conv_nth)
    have "teams ?st' ! j \<in> set (teams ?st')" using j len by (metis nth_mem)
    moreover have "name (teams ?st' ! j) = n \<and> s \<in> set (available_slots (teams ?st' ! j))"
      using j t fld by auto
    ultimately show "\<exists>t\<in>set (teams ?st'). name t = n \<and> s \<in> set (available_slots t)" by blast
  qed
  show ?thesis unfolding within_availability_nth using one two by blast
qed

lemma place_team_within:
  assumes "within_availability st" and "i < length (teams st)"
  shows "within_availability (place_team so st i)"
proof (cases "first_free_slot st (teams st ! i)")
  case None
  then show ?thesis using assms by (simp add: place_team_def leave_unassigned_within)
next
  case (Some slot)
  then have av: "slot \<in> set (available_slots (teams st ! i))" and sp: "slot_has_space st slot"
    unfolding first_free_slot_def by (auto simp: find_Some_iff)
  from sp obtain ts where ts: "map_of (time_slots st) slot = Some ts" and space: "has_space ts"
    by (auto simp: slot_has_space_def split: option.splits)
  show ?thesis
    using Some occupy_within[OF assms ts space av] by (simp add: place_team_def)
qed

lemma foldl_place_team_within:
  assumes "within_availability st" and "\<forall>i\<in>set order. i < length (teams st)"
  shows "within_availability (foldl (place_team so) st order)"
  using assms
proof (induction order arbitrary: st)
  case Nil
  then show ?case by simp
next
  case (Cons i rest)
  have "within_availability (place_team so st i)"
    using Cons.prems by (simp add: place_team_within)
  moreover have "\<forall>j\<in>set rest. j < length (teams (place_team so st i))"
    using Cons.prems by (simp add: place_team_frame)
  ultimately show ?case using Cons.IH by simp
qed

lemma reset_within: "within_availability (reset_teams (reset_time_slots st))"
proof -
  have "\<And>s g. occupant (reset_teams (reset_time_slots st)) s g = None"
    by (auto simp: occupant_def reset_teams_def reset_time_slots_def map_of_map
        split: option.splits group.splits dest!: map_of_SomeD)
  then show ?thesis
    by (simp add: within_availability_nth reset_frame)
qed

lemma greedy_result_within: "within_availability (greedy_result so st)"
  unfolding greedy_result_def
  by (rule foldl_place_team_within) (simp_all add: reset_within sorted_teams_def reset_frame)

lemma schedule_a_entry:
  assumes "distinct (map fst (time_slots st))"
    and "e \<in> set (fst (get_schedule_by_group st))"
  shows "occupant st (fst e) GA = Some (snd e) \<and> snd e \<noteq> []"
proof -
  from assms(2) obtain ts where m: "(fst e, ts) \<in> set (time_slots st)"
    and t: "truthy (group_a_team ts)" and n: "snd e = the (group_a_team ts)"
    by (auto simp: get_schedule_by_group_def)
  have "map_of (time_slots st) (fst e) = Some ts"
    using assms(1) m by simp
  then show ?thesis using t n by (cases "group_a_team ts") (auto simp: occupant_def)
qed

lemma schedule_b_entry:
  assumes "distinct (map fst (time_slots st))"
    and "e \<in> set (snd (get_schedule_by_group st))"
  shows "occupant st (fst e) GB = Some (snd e) \<and> snd e \<noteq> []"
proof -
  from assms(2) obtain ts where m: "(fst e, ts) \<in> set (time_slots st)"
    and t: "truthy (group_b_team ts)" and n: "snd e = the (group_b_team ts)"
    by (auto simp: get_schedule_by_group_def)
  have "map_of (time_slots st) (fst e) = Some ts"
    using assms(1) m by simp
  then show ?thesis using t n by (cases "group_b_team ts") (auto simp: occupant_def)
qed

lemma distinct_generate_all_slots: "distinct generate_all_slots"
  by code_simp

lemma wf_distinct: "wf_scheduler st \<Longrightarrow> distinct (map fst (time_slots st))"
  by (simp add: wf_scheduler_def distinct_generate_all_slots)

lemma within_admissible:
  assumes "within_availability st" and "distinct (map fst (time_slots st))"
  shows "admissible_schedule (teams st) (get_schedule_by_group st)"
  unfolding admissible_schedule_def
proof
  fix e assume "e \<in> set (fst (get_schedule_by_group st)) \<union> set (snd (get_schedule_by_group st))"
  then have "\<exists>g. occupant st (fst e) g = Some (snd e)"
    using schedule_a_entry[OF assms(2)] schedule_b_entry[OF assms(2)] by blast
  then show "\<exists>t\<in>set (teams st). name t = snd e \<and> fst e \<in> set (available_slots t)"
    using assms(1) unfolding within_availability_nth by blast
qed

section \<open>The loop of the optimizer\<close>

lemma gap_scan_defined:
  "set slots \<subseteq> fst ` set (time_slots st) \<Longrightarrow> \<exists>r. gap_scan st g slots in_session acc = Some r"
proof (induction slots arbitrary: in_session acc)
  case Nil
  then show ?case by simp
next
  case (Cons slot rest)
  then obtain ts where ts: "map_of (time_slots st) slot = Some ts"
    by (metis list.set_intros(1) map_of_eq_None_iff not_Some_eq subsetD)
  have rest: "set rest \<subseteq> fst ` set (time_slots st)" using Cons.prems by simp
  show ?case
    using ts Cons.IH[OF rest] by (auto simp: Let_def)
qed

lemma gap_dates_defined:
  "set (all_slots st) \<subseteq> fst ` set (time_slots st) \<Longrightarrow> \<exists>r. gap_dates st g ds acc = Some r"
proof (induction ds arbitrary: acc)
  case Nil
  then show ?case by simp
next
  case (Cons d rest)
  have "set (filter (prefix d) (all_slots st)) \<subseteq> fst ` set (time_slots st)"
    using Cons.prems by auto
  from gap_scan_defined[OF this] obtain r where
    "gap_scan st g (filter (prefix d) (all_slots st)) False acc = Some r" by blast
  then show ?case using Cons.IH[OF Cons.prems] by simp
qed

lemma gap_groups_defined:
  "set (all_slots st) \<subseteq> fst ` set (time_slots st) \<Longrightarrow> \<exists>r. gap_groups st gs acc = Some r"
proof (induction gs arbitrary: acc)
  case Nil
  then show ?case by simp
next
  case (Cons g rest)
  from gap_dates_defined[OF Cons.prems] obtain r where
    "gap_dates st g schedule_dates acc = Some r" by blast
  then show ?case using Cons.IH[OF Cons.prems] by simp
qed

lemma gap_score_defined:
  "wf_scheduler st \<Longrightarrow> calculate_gap_score st = Some (gap_of st)"
proof -
  assume "wf_scheduler st"
  then have "set (all_slots st) \<subseteq> fst ` set (time_slots st)" by (simp add: wf_keys)
  from gap_groups_defined[OF this] obtain r where "calculate_gap_score st = Some r"
    unfolding calculate_gap_score_def by blast
  then show ?thesis by (simp add: gap_of_def)
qed

lemma wf_teams_update: "wf_scheduler (st\<lparr>teams := ts\<rparr>) = wf_scheduler st"
  by (simp add: wf_scheduler_def)

lemma iteration_state_wf:
  "wf_scheduler st \<Longrightarrow> wf_scheduler (iteration_state shuffle so st k)"
  by (induction k) (simp_all add: greedy_result_wf wf_teams_update)

lemma greedy_result_length: "length (teams (greedy_result so st)) = length (teams st)"
  using greedy_result_input[of so st] by (metis length_map)

lemma iteration_state_length:
  "shuffles shuffle \<Longrightarrow> length (teams (iteration_state shuffle so st k)) = length (teams st)"
proof (induction k)
  case 0
  then show ?case by simp
next
  case (Suc k)
  have "length (shuffle k (teams (iteration_state shuffle so st k))) =
        length (teams (iteration_state shuffle so st k))"
    using Suc.prems unfolding shuffles_def by (metis size_mset)
  then show ?case using Suc by (simp add: greedy_result_length)
qed

lemma optimize_loop_step:
  assumes "wf_scheduler T"
  shows "optimize_loop shuffle so (k # rest) T b =
     (let S = greedy_result so (T\<lparr>teams := shuffle k (teams T)\<rparr>)
      in if improved S b
         then (if perfect S then Some (S, snapshot S)
               else optimize_loop shuffle so rest S (snapshot S))
         else optimize_loop shuffle so rest S b)"
proof -
  let ?S = "greedy_result so (T\<lparr>teams := shuffle k (teams T)\<rparr>)"
  have wfT: "wf_scheduler (T\<lparr>teams := shuffle k (teams T)\<rparr>)"
    using assms by (simp add: wf_teams_update)
  have run: "schedule_interviews_continuous so (T\<lparr>teams := shuffle k (teams T)\<rparr>) =
      Some (get_schedule_by_group ?S, ?S)"
    by (simp add: schedule_interviews_continuous_def run_continuous_result[OF wfT])
  have gap: "calculate_gap_score ?S = Some (gap_of ?S)"
    using greedy_result_wf[OF wfT] by (rule gap_score_defined)
  show ?thesis
    by (simp add: run gap Let_def improved_def perfect_def snapshot_def assigned_count_def)
qed

lemma improved_initial: "improved S initial_best"
  by (auto simp: improved_def initial_best_def)

lemma improved_snapshot: "improved S (snapshot S') = better S S'"
  by (simp add: improved_def snapshot_def better_def)

lemma assigned_count_le: "assigned_count S \<le> length (teams S)"
  by (simp add: assigned_count_def)

lemma optimize_loop_run:
  assumes wf: "wf_scheduler st" and sh: "shuffles shuffle"
  shows "k0 \<le> n \<Longrightarrow>
     (k0 = 0 \<and> b = initial_best) \<or>
       (\<exists>k. b = snapshot (iteration_state shuffle so st (Suc k)) \<and> first_best shuffle so st k k0) \<Longrightarrow>
     (\<forall>j<k0. \<not> perfect (iteration_state shuffle so st (Suc j))) \<Longrightarrow>
     \<exists>m b'. k0 \<le> m \<and> m \<le> n \<and>
        optimize_loop shuffle so [k0..<n] (iteration_state shuffle so st k0) b =
          Some (iteration_state shuffle so st m, b') \<and>
        ((m = 0 \<and> b' = initial_best) \<or>
         (\<exists>k. b' = snapshot (iteration_state shuffle so st (Suc k)) \<and> first_best shuffle so st k m)) \<and>
        (\<forall>j. Suc j < m \<longrightarrow> \<not> perfect (iteration_state shuffle so st (Suc j))) \<and>
        (m = n \<or> (0 < m \<and> perfect (iteration_state shuffle so st m)))"
proof (induction "n - k0" arbitrary: k0 b)
  case 0
  then have eq: "k0 = n" by simp
  show ?case
    unfolding eq using 0 eq
    by (intro exI[of _ n] exI[of _ b]) auto
next
  case (Suc d)
  note iteration_state.simps(2)[simp del]
  let ?I = "iteration_state shuffle so st"
  have lt: "k0 < n" using Suc.hyps(2) by simp
  have upt: "[k0..<n] = k0 # [Suc k0..<n]" using lt by (simp add: upt_conv_Cons)
  let ?S = "?I (Suc k0)"
  have step: "optimize_loop shuffle so [k0..<n] (?I k0) b =
     (if improved ?S b
      then (if perfect ?S then Some (?S, snapshot ?S)
            else optimize_loop shuffle so [Suc k0..<n] ?S (snapshot ?S))
      else optimize_loop shuffle so [Suc k0..<n] ?S b)"
    unfolding upt using optimize_loop_step[OF iteration_state_wf[OF wf]]
    by (simp add: Let_def iteration_state.simps(2))
  have len: "\<And>k. length (teams (?I k)) = length (teams st)"
    using iteration_state_length[OF sh] by simp
  have d: "d = n - Suc k0" using Suc.hyps(2) by simp
  have le: "Suc k0 \<le> n" using lt by simp
  show ?case
  proof (cases "improved ?S b")
    case True
    have fb: "first_best shuffle so st k0 (Suc k0)"
    proof (cases "k0 = 0 \<and> b = initial_best")
      case True
      then show ?thesis by (simp add: first_best_def better_def)
    next
      case False
      then obtain k where k: "b = snapshot (?I (Suc k))" "first_best shuffle so st k k0"
        using Suc.prems(2) by blast
      have bt: "better ?S (?I (Suc k))" using True k(1) by (simp add: improved_snapshot)
      have a: "\<forall>j<Suc k0. \<not> better (?I (Suc j)) ?S"
      proof (intro allI impI)
        fix j assume "j < Suc k0"
        then consider "j = k0" | "j < k0" by linarith
        then show "\<not> better (?I (Suc j)) ?S"
        proof cases
          case 1
          then show ?thesis by (simp add: better_def)
        next
          case 2
          then have "\<not> better (?I (Suc j)) (?I (Suc k))"
            using k(2) by (simp add: first_best_def)
          then show ?thesis using bt unfolding better_def by linarith
        qed
      qed
      have b: "\<forall>j<k0. better ?S (?I (Suc j))"
      proof (intro allI impI)
        fix j assume "j < k0"
        then have "\<not> better (?I (Suc j)) (?I (Suc k))"
          using k(2) by (simp add: first_best_def)
        then show "better ?S (?I (Suc j))" using bt unfolding better_def by linarith
      qed
      show ?thesis unfolding first_best_def using a b by simp
    qed
    show ?thesis
    proof (cases "perfect ?S")
      case True
      have "optimize_loop shuffle so [k0..<n] (?I k0) b = Some (?S, snapshot ?S)"
        using step \<open>improved ?S b\<close> True by simp
      moreover have "\<forall>j. Suc j < Suc k0 \<longrightarrow> \<not> perfect (?I (Suc j))"
        using Suc.prems(3) by simp
      ultimately show ?thesis
        using fb True le
        by (intro exI[of _ "Suc k0"] exI[of _ "snapshot ?S"]) auto
    next
      case False
      have np: "\<forall>j<Suc k0. \<not> perfect (?I (Suc j))"
        using Suc.prems(3) False by (auto simp: less_Suc_eq)
      have inv: "(Suc k0 = 0 \<and> snapshot ?S = initial_best) \<or>
         (\<exists>k. snapshot ?S = snapshot (?I (Suc k)) \<and> first_best shuffle so st k (Suc k0))"
        using fb by blast
      from Suc.hyps(1)[OF d le inv np] obtain m b' where m:
        "Suc k0 \<le> m" "m \<le> n"
        "optimize_loop shuffle so [Suc k0..<n] ?S (snapshot ?S) = Some (?I m, b')"
        "(m = 0 \<and> b' = initial_best) \<or>
         (\<exists>k. b' = snapshot (?I (Suc k)) \<and> first_best shuffle so st k m)"
        "\<forall>j. Suc j < m \<longrightarrow> \<not> perfect (?I (Suc j))"
        "m = n \<or> (0 < m \<and> perfect (?I m))"
        by blast
      have "optimize_loop shuffle so [k0..<n] (?I k0) b = Some (?I m, b')"
        using step \<open>improved ?S b\<close> False m(3) by simp
      then show ?thesis using m by (intro exI[of _ m] exI[of _ b']) auto
    qed
  next
    case False
    then have nz: "\<not> (k0 = 0 \<and> b = initial_best)" using improved_initial by blast
    then obtain k where k: "b = snapshot (?I (Suc k))" "first_best shuffle so st k k0"
      using Suc.prems(2) by blast
    have nb: "\<not> better ?S (?I (Suc k))" using False k(1) by (simp add: improved_snapshot)
    have kk: "k < k0" using k(2) by (simp add: first_best_def)
    have fb: "first_best shuffle so st k (Suc k0)"
      using k(2) nb unfolding first_best_def by (auto simp: less_Suc_eq)
    have "\<not> perfect ?S"
    proof
      assume p: "perfect ?S"
      have "assigned_count (?I (Suc k)) \<le> length (teams (?I (Suc k)))"
        by (rule assigned_count_le)
      then have "assigned_count (?I (Suc k)) \<le> length (teams st)"
        by (simp only: len)
      then have "perfect (?I (Suc k))"
        using p nb len unfolding perfect_def better_def by auto
      then show False using Suc.prems(3) kk by blast
    qed
    then have np: "\<forall>j<Suc k0. \<not> perfect (?I (Suc j))"
      using Suc.prems(3) by (auto simp: less_Suc_eq)
    have inv: "(Suc k0 = 0 \<and> b = initial_best) \<or>
         (\<exists>k. b = snapshot (?I (Suc k)) \<and> first_best shuffle so st k (Suc k0))"
      using fb k(1) by blast
    from Suc.hyps(1)[OF d le inv np] obtain m b' where m:
        "Suc k0 \<le> m" "m \<le> n"
        "optimize_loop shuffle so [Suc k0..<n] ?S b = Some (?I m, b')"
        "(m = 0 \<and> b' = initial_best) \<or>
         (\<exists>k. b' = snapshot (?I (Suc k)) \<and> first_best shuffle so st k m)"
        "\<forall>j. Suc j < m \<longrightarrow> \<not> perfect (?I (Suc j))"
        "m = n \<or> (0 < m \<and> perfect (?I m))"
        by blast
    have "optimize_loop shuffle so [k0..<n] (?I k0) b = Some (?I m, b')"
      using step False m(3) by simp
    then show ?thesis using m by (intro exI[of _ m] exI[of _ b']) auto
  qed
qed

section \<open>The restore step of the optimizer\<close>

lemma update_static:
  "map_of tss k = Some ts \<Longrightarrow> sf (k, v) = sf (k, ts) \<Longrightarrow> map sf (AList.update k v tss) = map sf tss"
  by (induction tss) (auto split: if_splits)

lemma occupy_static: "slot_static (occupy st i slot) = slot_static st"
  by (auto simp: slot_static_def occupy_def update_static split: option.split)

lemma place_team_static: "slot_static (place_team so st i) = slot_static st"
proof (cases "first_free_slot st (teams st ! i)")
  case None
  then show ?thesis by (simp add: place_team_def leave_unassigned_def slot_static_def)
next
  case (Some slot)
  then show ?thesis by (simp add: place_team_def occupy_static)
qed

lemma foldl_place_team_static: "slot_static (foldl (place_team so) st order) = slot_static st"
  by (induction order arbitrary: st) (simp_all add: place_team_static)

lemma reset_static: "slot_static (reset_teams (reset_time_slots st)) = slot_static st"
  by (simp add: slot_static_def reset_teams_def reset_time_slots_def comp_def split_def)

lemma greedy_result_static: "slot_static (greedy_result so st) = slot_static st"
  by (simp add: greedy_result_def foldl_place_team_static reset_static)

lemma slot_static_teams_update: "slot_static (st\<lparr>teams := ts\<rparr>) = slot_static st"
  by (simp add: slot_static_def)

lemma iteration_state_static:
  "slot_static (iteration_state shuffle so st k) = slot_static st"
  by (induction k) (simp_all add: greedy_result_static slot_static_teams_update)

lemma slot_static_lookup:
  "map_of (slot_static st) k =
     map_option (\<lambda>ts. (date ts, time ts, full_slot ts)) (map_of (time_slots st) k)"
  unfolding slot_static_def by (induction "time_slots st" arbitrary: st) (auto simp: map_of_map)

lemma team_input_mset_shuffle:
  "shuffles shuffle \<Longrightarrow> mset (map team_input (shuffle k ts)) = mset (map team_input ts)"
  by (simp add: shuffles_def)

lemma iteration_state_inputs:
  "shuffles shuffle \<Longrightarrow>
     mset (map team_input (teams (iteration_state shuffle so st k))) = mset (map team_input (teams st))"
  by (induction k) (simp_all add: greedy_result_input shuffles_def)

lemma restore_group_lookup:
  assumes "fst ` set sched \<subseteq> fst ` set tss" and "distinct (map fst sched)"
  shows "\<exists>tss'. restore_group g sched tss = Some tss' \<and> map fst tss' = map fst tss \<and>
     (\<forall>k ts. map_of tss k = Some ts \<longrightarrow>
        map_of tss' k =
          Some (case map_of sched k of
                  None \<Rightarrow> ts
                | Some n \<Rightarrow> if g = GA then ts\<lparr>group_a_team := Some n\<rparr>
                            else ts\<lparr>group_b_team := Some n\<rparr>))"
  using assms
proof (induction sched arbitrary: tss)
  case Nil
  then show ?case by simp
next
  case (Cons e rest)
  obtain slot n where e: "e = (slot, n)" by (cases e)
  have "slot \<in> fst ` set tss" using Cons.prems(1) e by simp
  then obtain ts0 where ts0: "map_of tss slot = Some ts0"
    by (metis map_of_eq_None_iff not_Some_eq)
  let ?v = "if g = GA then ts0\<lparr>group_a_team := Some n\<rparr> else ts0\<lparr>group_b_team := Some n\<rparr>"
  let ?tss1 = "AList.update slot ?v tss"
  have keys1: "map fst ?tss1 = map fst tss"
    using \<open>slot \<in> fst ` set tss\<close> by (simp add: update_keys)
  have sub: "fst ` set rest \<subseteq> fst ` set ?tss1"
    using Cons.prems(1) keys1 by (metis (no_types, lifting) list.set_map set_subset_Cons image_mono subset_trans)
  have dist: "distinct (map fst rest)" using Cons.prems(2) by simp
  have fresh: "map_of rest slot = None"
    using Cons.prems(2) e by (simp add: map_of_eq_None_iff)
  from Cons.IH[OF sub dist] obtain tss' where r: "restore_group g rest ?tss1 = Some tss'"
    and k: "map fst tss' = map fst ?tss1"
    and l: "\<forall>k ts. map_of ?tss1 k = Some ts \<longrightarrow>
        map_of tss' k =
          Some (case map_of rest k of
                  None \<Rightarrow> ts
                | Some n \<Rightarrow> if g = GA then ts\<lparr>group_a_team := Some n\<rparr>
                            else ts\<lparr>group_b_team := Some n\<rparr>)"
    by blast
  have run: "restore_group g (e # rest) tss = Some tss'"
    using e ts0 r by simp
  have look: "\<forall>k ts. map_of tss k = Some ts \<longrightarrow>
        map_of tss' k =
          Some (case map_of (e # rest) k of
                  None \<Rightarrow> ts
                | Some n \<Rightarrow> if g = GA then ts\<lparr>group_a_team := Some n\<rparr>
                            else ts\<lparr>group_b_team := Some n\<rparr>)"
  proof (intro allI impI)
    fix k ts assume a: "map_of tss k = Some ts"
    show "map_of tss' k =
          Some (case map_of (e # rest) k of
                  None \<Rightarrow> ts
                | Some n \<Rightarrow> if g = GA then ts\<lparr>group_a_team := Some n\<rparr>
                            else ts\<lparr>group_b_team := Some n\<rparr>)"
    proof (cases "k = slot")
      case True
      have "map_of ?tss1 slot = Some ?v" by (simp add: update_conv')
      then have "map_of tss' slot = Some ?v" using l fresh by simp
      then show ?thesis using True a ts0 e by simp
    next
      case False
      then have "map_of ?tss1 k = Some ts" using a by (simp add: update_conv')
      then show ?thesis using l False e by simp
    qed
  qed
  show ?case using run k keys1 look by simp
qed

lemma schedule_lookup:
  assumes "distinct (map fst xs)"
  shows "map_of (map (\<lambda>(k, ts). (k, the (f ts))) (filter (\<lambda>(k, ts). truthy (f ts)) xs)) k =
     (case map_of xs k of
        None \<Rightarrow> None
      | Some ts \<Rightarrow> if truthy (f ts) then f ts else None)"
  using assms
proof (induction xs)
  case Nil
  then show ?case by simp
next
  case (Cons x xs)
  obtain k' ts where x: "x = (k', ts)" by (cases x)
  have IH: "map_of (map (\<lambda>(k, ts). (k, the (f ts))) (filter (\<lambda>(k, ts). truthy (f ts)) xs)) k =
     (case map_of xs k of None \<Rightarrow> None | Some ts \<Rightarrow> if truthy (f ts) then f ts else None)"
    using Cons by simp
  show ?case
  proof (cases "k = k'")
    case True
    have "map_of xs k = None" using Cons.prems x True by (simp add: map_of_eq_None_iff)
    then show ?thesis using IH x True by (cases "f ts") auto
  next
    case False
    then show ?thesis using IH x by simp
  qed
qed

lemma schedule_keys_sub:
  "fst ` set (map (\<lambda>(k, ts). (k, the (f ts))) (filter (\<lambda>(k, ts). truthy (f ts)) xs)) \<subseteq> fst ` set xs"
  by force

lemma schedule_keys_distinct:
  "distinct (map fst xs) \<Longrightarrow>
   distinct (map fst (map (\<lambda>(k, ts). (k, the (f ts))) (filter (\<lambda>(k, ts). truthy (f ts)) xs)))"
proof -
  assume "distinct (map fst xs)"
  then have d: "distinct (map fst (filter (\<lambda>(k, ts). truthy (f ts)) xs))"
    by (rule distinct_map_filter)
  have eq: "map fst (map (\<lambda>(k, ts). (k, the (f ts))) (filter (\<lambda>(k, ts). truthy (f ts)) xs))
       = map fst (filter (\<lambda>(k, ts). truthy (f ts)) xs)"
    by (simp add: comp_def split_def)
  show ?thesis unfolding eq using d .
qed

lemma alist_eqI:
  assumes "map fst xs = map fst ys" and "distinct (map fst xs)"
    and "\<And>k. map_of xs k = map_of ys k"
  shows "xs = ys"
proof (rule nth_equalityI)
  show len: "length xs = length ys" using assms(1) by (metis length_map)
  fix i assume i: "i < length xs"
  have kx: "fst (xs ! i) = fst (ys ! i)"
    using assms(1) i len by (metis nth_map)
  have "map_of xs (fst (xs ! i)) = Some (snd (xs ! i))"
    using assms(2) i by simp
  moreover have "map_of ys (fst (ys ! i)) = Some (snd (ys ! i))"
    using assms(1,2) i len by simp
  ultimately have "snd (xs ! i) = snd (ys ! i)"
    using assms(3) kx by simp
  then show "xs ! i = ys ! i" using kx by (simp add: prod_eq_iff)
qed

lemma restore_slots:
  assumes wfT: "wf_scheduler T" and wfS: "wf_scheduler S"
  shows "\<exists>tss_a tss_b.
     restore_group GA (fst (get_schedule_by_group S)) (time_slots (reset_time_slots T)) = Some tss_a \<and>
     restore_group GB (snd (get_schedule_by_group S)) tss_a = Some tss_b \<and>
     map fst tss_b = map fst (time_slots T) \<and>
     (\<forall>k tT. map_of (time_slots T) k = Some tT \<longrightarrow>
        map_of tss_b k =
          Some (tT\<lparr>group_a_team := map_of (fst (get_schedule_by_group S)) k,
                   group_b_team := map_of (snd (get_schedule_by_group S)) k\<rparr>))"
proof -
  let ?sa = "fst (get_schedule_by_group S)" and ?sb = "snd (get_schedule_by_group S)"
  let ?r = "time_slots (reset_time_slots T)"
  have keysT: "map fst (time_slots T) = generate_all_slots"
    and keysS: "map fst (time_slots S) = generate_all_slots"
    using wfT wfS by (simp_all add: wf_scheduler_def)
  have keysR: "map fst ?r = map fst (time_slots T)"
    by (simp add: reset_time_slots_def comp_def split_def)
  have setk: "fst ` set (time_slots S) = fst ` set ?r"
    using keysS keysT keysR by (metis list.set_map)
  have dS: "distinct (map fst (time_slots S))" using wfS by (rule wf_distinct)
  have suba: "fst ` set ?sa \<subseteq> fst ` set ?r"
    unfolding get_schedule_by_group_def fst_conv setk[symmetric] by (rule schedule_keys_sub)
  have da: "distinct (map fst ?sa)"
    unfolding get_schedule_by_group_def fst_conv using dS by (rule schedule_keys_distinct)
  from restore_group_lookup[OF suba da, of GA] obtain tss_a where
    ra: "restore_group GA ?sa ?r = Some tss_a" and ka: "map fst tss_a = map fst ?r"
    and la0: "\<forall>k ts. map_of ?r k = Some ts \<longrightarrow>
        map_of tss_a k = Some (case map_of ?sa k of None \<Rightarrow> ts
           | Some n \<Rightarrow> if GA = GA then ts\<lparr>group_a_team := Some n\<rparr> else ts\<lparr>group_b_team := Some n\<rparr>)"
    by blast
  have la: "\<forall>k ts. map_of ?r k = Some ts \<longrightarrow>
        map_of tss_a k = Some (case map_of ?sa k of None \<Rightarrow> ts | Some n \<Rightarrow> ts\<lparr>group_a_team := Some n\<rparr>)"
    using la0 by (simp cong: option.case_cong)
  have subb: "fst ` set ?sb \<subseteq> fst ` set tss_a"
  proof -
    have "fst ` set ?sb \<subseteq> fst ` set (time_slots S)"
      unfolding get_schedule_by_group_def snd_conv by (rule schedule_keys_sub)
    moreover have "fst ` set tss_a = fst ` set ?r" using ka by (metis list.set_map)
    ultimately show ?thesis using setk by simp
  qed
  have db: "distinct (map fst ?sb)"
    unfolding get_schedule_by_group_def snd_conv using dS by (rule schedule_keys_distinct)
  from restore_group_lookup[OF subb db, of GB] obtain tss_b where
    rb: "restore_group GB ?sb tss_a = Some tss_b" and kb: "map fst tss_b = map fst tss_a"
    and lb0: "\<forall>k ts. map_of tss_a k = Some ts \<longrightarrow>
        map_of tss_b k = Some (case map_of ?sb k of None \<Rightarrow> ts
           | Some n \<Rightarrow> if GB = GA then ts\<lparr>group_a_team := Some n\<rparr> else ts\<lparr>group_b_team := Some n\<rparr>)"
    by blast
  have lb: "\<forall>k ts. map_of tss_a k = Some ts \<longrightarrow>
        map_of tss_b k = Some (case map_of ?sb k of None \<Rightarrow> ts | Some n \<Rightarrow> ts\<lparr>group_b_team := Some n\<rparr>)"
    using lb0 by (simp cong: option.case_cong)
  have look: "\<forall>k tT. map_of (time_slots T) k = Some tT \<longrightarrow>
        map_of tss_b k = Some (tT\<lparr>group_a_team := map_of ?sa k, group_b_team := map_of ?sb k\<rparr>)"
  proof (intro allI impI)
    fix k tT assume a: "map_of (time_slots T) k = Some tT"
    have "map_of ?r k = Some (tT\<lparr>group_a_team := None, group_b_team := None\<rparr>)"
      using a by (simp add: reset_time_slots_def map_of_map)
    then have "map_of tss_a k =
        Some (case map_of ?sa k of None \<Rightarrow> tT\<lparr>group_a_team := None, group_b_team := None\<rparr>
              | Some n \<Rightarrow> tT\<lparr>group_a_team := None, group_b_team := None\<rparr>\<lparr>group_a_team := Some n\<rparr>)"
      using la by blast
    then have "map_of tss_a k = Some (tT\<lparr>group_a_team := map_of ?sa k, group_b_team := None\<rparr>)"
      by (cases "map_of ?sa k") simp_all
    then have "map_of tss_b k =
        Some (case map_of ?sb k of None \<Rightarrow> tT\<lparr>group_a_team := map_of ?sa k, group_b_team := None\<rparr>
              | Some n \<Rightarrow> tT\<lparr>group_a_team := map_of ?sa k, group_b_team := None\<rparr>\<lparr>group_b_team := Some n\<rparr>)"
      using lb by blast
    then show "map_of tss_b k = Some (tT\<lparr>group_a_team := map_of ?sa k, group_b_team := map_of ?sb k\<rparr>)"
      by (cases "map_of ?sb k") simp_all
  qed
  show ?thesis using ra rb ka kb keysR look by (intro exI[of _ tss_a] exI[of _ tss_b]) simp
qed

lemma restore_team_input: "team_input (restore_team A t) = team_input t"
  by (induction A t rule: restore_team.induct) (auto simp: team_input_def)

lemma restore_team_Cons:
  "restore_team (team_assignment_of v # A) t =
     (if name t = name v
      then t\<lparr>assigned_slot := assigned_slot v, assigned_group := assigned_group v,
             conflict_reason := conflict_reason v\<rparr>
      else restore_team A t)"
  by (simp add: team_assignment_of_def)

lemma restore_team_member:
  assumes "distinct (map name us)" and "u \<in> set us" and "team_input t = team_input u"
  shows "restore_team (map team_assignment_of us) t = u"
  using assms
proof (induction us)
  case Nil
  then show ?case by simp
next
  case (Cons v rest)
  have nt: "name t = name u" using Cons.prems(3) by (simp add: team_input_def)
  show ?case
  proof (cases "name t = name v")
    case True
    have "u = v"
    proof (rule ccontr)
      assume "u \<noteq> v"
      then have "u \<in> set rest" using Cons.prems(2) by simp
      then have "name u \<in> set (map name rest)" by simp
      then show False using Cons.prems(1) True nt by simp
    qed
    then have "team_input t = team_input v" using Cons.prems(3) by simp
    then have "t\<lparr>assigned_slot := assigned_slot v, assigned_group := assigned_group v,
                 conflict_reason := conflict_reason v\<rparr> = v"
      by (cases t, cases v) (simp add: team_input_def)
    then show ?thesis using True \<open>u = v\<close> by (simp add: restore_team_Cons)
  next
    case False
    then have "u \<noteq> v" using nt by auto
    then have "u \<in> set rest" using Cons.prems(2) by simp
    then have "restore_team (map team_assignment_of rest) t = u"
      using Cons.IH Cons.prems(1,3) by simp
    then show ?thesis using False by (simp add: restore_team_Cons)
  qed
qed

lemma restore_teams_mset:
  assumes "mset (map team_input ts) = mset (map team_input us)" and "distinct (map name us)"
  shows "mset (map (restore_team (map team_assignment_of us)) ts) = mset us"
proof -
  let ?A = "map team_assignment_of us"
  have "inj_on name (set us)" using assms(2) by (simp add: distinct_map)
  then have inj: "inj_on team_input (set us)"
    unfolding inj_on_def team_input_def by auto
  define h where "h = inv_into (set us) team_input"
  have hu: "\<And>u. u \<in> set us \<Longrightarrow> h (team_input u) = u"
    using inj by (simp add: h_def)
  have "restore_team ?A t = h (team_input t)" if "t \<in> set ts" for t
  proof -
    have "team_input t \<in> set (map team_input ts)" using that by simp
    then have "team_input t \<in> set (map team_input us)"
      using assms(1) by (metis set_mset_mset)
    then obtain u where u: "u \<in> set us" "team_input u = team_input t" by auto
    have "restore_team ?A t = u"
      using restore_team_member[OF assms(2) u(1)] u(2) by simp
    then show ?thesis using hu[OF u(1)] u(2) by simp
  qed
  then have a: "map (restore_team ?A) ts = map h (map team_input ts)" by simp
  have b: "us = map h (map team_input us)" using hu by (simp add: map_idI)
  have "mset (map (restore_team ?A) ts) = image_mset h (mset (map team_input ts))"
    by (simp only: a mset_map)
  also have "\<dots> = image_mset h (mset (map team_input us))" using assms(1) by simp
  also have "\<dots> = mset (map h (map team_input us))" by (simp only: mset_map)
  also have "\<dots> = mset us" using b by simp
  finally show ?thesis .
qed

lemma restore_best_result:
  assumes wfT: "wf_scheduler T" and wfS: "wf_scheduler S"
  shows "\<exists>final. restore_best T (snapshot S) = Some final \<and>
     all_slots final = all_slots T \<and>
     map team_input (teams final) = map team_input (teams T) \<and>
     (teams S = [] \<longrightarrow> final = T) \<and>
     (teams S \<noteq> [] \<longrightarrow>
        teams final = map (restore_team (map team_assignment_of (teams S))) (teams T) \<and>
        map fst (time_slots final) = map fst (time_slots T) \<and>
        (\<forall>k tT. map_of (time_slots T) k = Some tT \<longrightarrow>
           map_of (time_slots final) k =
             Some (tT\<lparr>group_a_team := map_of (fst (get_schedule_by_group S)) k,
                      group_b_team := map_of (snd (get_schedule_by_group S)) k\<rparr>)))"
proof (cases "teams S = []")
  case True
  then show ?thesis by (simp add: restore_best_def snapshot_def)
next
  case False
  from restore_slots[OF wfT wfS] obtain tss_a tss_b where
    ra: "restore_group GA (fst (get_schedule_by_group S)) (time_slots (reset_time_slots T)) = Some tss_a"
    and rb: "restore_group GB (snd (get_schedule_by_group S)) tss_a = Some tss_b"
    and kb: "map fst tss_b = map fst (time_slots T)"
    and lb: "\<forall>k tT. map_of (time_slots T) k = Some tT \<longrightarrow>
        map_of tss_b k =
          Some (tT\<lparr>group_a_team := map_of (fst (get_schedule_by_group S)) k,
                   group_b_team := map_of (snd (get_schedule_by_group S)) k\<rparr>)"
    by blast
  let ?final = "T\<lparr>time_slots := tss_b,
                  teams := map (restore_team (map team_assignment_of (teams S))) (teams T)\<rparr>"
  have "restore_best T (snapshot S) = Some ?final"
    using False ra rb by (simp add: restore_best_def snapshot_def split_def)
  moreover have "map team_input (teams ?final) = map team_input (teams T)"
    by (simp add: restore_team_input comp_def)
  ultimately show ?thesis using False kb lb by simp
qed

lemma optimize_schedule_run:
  assumes wf: "wf_scheduler st" and sh: "shuffles shuffle" and n: "0 < n"
  shows "\<exists>m k final. first_best shuffle so st k m \<and> m \<le> n \<and>
      (\<forall>j. Suc j < m \<longrightarrow> \<not> perfect (iteration_state shuffle so st (Suc j))) \<and>
      (m = n \<or> perfect (iteration_state shuffle so st m)) \<and>
      restore_best (iteration_state shuffle so st m)
        (snapshot (iteration_state shuffle so st (Suc k))) = Some final \<and>
      optimize_schedule shuffle so n st =
        Some (Some (get_schedule_by_group (iteration_state shuffle so st (Suc k))), final)"
proof -
  let ?I = "iteration_state shuffle so st"
  have "\<exists>m b'. 0 \<le> m \<and> m \<le> n \<and>
        optimize_loop shuffle so [0..<n] (?I 0) initial_best = Some (?I m, b') \<and>
        ((m = 0 \<and> b' = initial_best) \<or>
         (\<exists>k. b' = snapshot (?I (Suc k)) \<and> first_best shuffle so st k m)) \<and>
        (\<forall>j. Suc j < m \<longrightarrow> \<not> perfect (?I (Suc j))) \<and>
        (m = n \<or> (0 < m \<and> perfect (?I m)))"
    by (rule optimize_loop_run[OF wf sh]) simp_all
  then obtain m b' where m: "m \<le> n"
    and run: "optimize_loop shuffle so [0..<n] st initial_best = Some (?I m, b')"
    and b': "(m = 0 \<and> b' = initial_best) \<or>
         (\<exists>k. b' = snapshot (?I (Suc k)) \<and> first_best shuffle so st k m)"
    and np: "\<forall>j. Suc j < m \<longrightarrow> \<not> perfect (?I (Suc j))"
    and stop: "m = n \<or> (0 < m \<and> perfect (?I m))"
    by auto
  have "0 < m" using stop n by auto
  then obtain k where k: "b' = snapshot (?I (Suc k))" "first_best shuffle so st k m"
    using b' by auto
  from restore_best_result[OF iteration_state_wf[OF wf] iteration_state_wf[OF wf], of shuffle so m shuffle so "Suc k"]
  obtain final where f: "restore_best (?I m) (snapshot (?I (Suc k))) = Some final"
    by blast
  have "optimize_schedule shuffle so n st = Some (Some (get_schedule_by_group (?I (Suc k))), final)"
    using run k(1) f by (simp add: optimize_schedule_def snapshot_def)
  then show ?thesis using k(2) m np stop f by blast
qed

lemma restore_best_exact:
  assumes wfT: "wf_scheduler T" and wfS: "wf_scheduler S"
    and static: "slot_static T = slot_static S"
    and ne: "teams S \<noteq> []"
    and inputs: "mset (map team_input (teams T)) = mset (map team_input (teams S))"
    and dist: "distinct (map name (teams S))"
    and names: "\<forall>slot g n. occupant S slot g = Some n \<longrightarrow> n \<noteq> []"
    and final: "restore_best T (snapshot S) = Some final"
  shows "time_slots final = time_slots S \<and> mset (teams final) = mset (teams S) \<and>
         all_slots final = all_slots S"
proof -
  let ?sa = "fst (get_schedule_by_group S)" and ?sb = "snd (get_schedule_by_group S)"
  from restore_best_result[OF wfT wfS] final ne have
    al: "all_slots final = all_slots T"
    and tm: "teams final = map (restore_team (map team_assignment_of (teams S))) (teams T)"
    and kf: "map fst (time_slots final) = map fst (time_slots T)"
    and lf: "\<forall>k tT. map_of (time_slots T) k = Some tT \<longrightarrow>
           map_of (time_slots final) k =
             Some (tT\<lparr>group_a_team := map_of ?sa k, group_b_team := map_of ?sb k\<rparr>)"
    by auto
  have keysT: "map fst (time_slots T) = generate_all_slots"
    and keysS: "map fst (time_slots S) = generate_all_slots"
    and allT: "all_slots T = generate_all_slots" and allS: "all_slots S = generate_all_slots"
    using wfT wfS by (simp_all add: wf_scheduler_def)
  have dS: "distinct (map fst (time_slots S))" using wfS by (rule wf_distinct)
  have look: "map_of (time_slots final) k = map_of (time_slots S) k" for k
  proof (cases "map_of (time_slots T) k")
    case None
    then have "k \<notin> set (map fst (time_slots T))" by (simp add: map_of_eq_None_iff)
    then have "k \<notin> set (map fst (time_slots final))" "k \<notin> set (map fst (time_slots S))"
      using kf keysT keysS by simp_all
    then have "map_of (time_slots final) k = None" "map_of (time_slots S) k = None"
      by (simp_all add: map_of_eq_None_iff)
    then show ?thesis by simp
  next
    case (Some tT)
    have "map_of (slot_static S) k = Some (date tT, time tT, full_slot tT)"
      using Some static[symmetric] by (simp add: slot_static_lookup)
    then obtain tS where tS: "map_of (time_slots S) k = Some tS"
      and st: "date tS = date tT" "time tS = time tT" "full_slot tS = full_slot tT"
      by (auto simp: slot_static_lookup)
    have oa: "occupant S k GA = group_a_team tS" and ob: "occupant S k GB = group_b_team tS"
      using tS by (simp_all add: occupant_def)
    have ta: "(if truthy (group_a_team tS) then group_a_team tS else None) = group_a_team tS"
      using names oa by (cases "group_a_team tS") auto
    have tb: "(if truthy (group_b_team tS) then group_b_team tS else None) = group_b_team tS"
      using names ob by (cases "group_b_team tS") auto
    have a: "map_of ?sa k = group_a_team tS"
      unfolding get_schedule_by_group_def fst_conv schedule_lookup[OF dS] using tS ta by simp
    have b: "map_of ?sb k = group_b_team tS"
      unfolding get_schedule_by_group_def snd_conv schedule_lookup[OF dS] using tS tb by simp
    have "tT\<lparr>group_a_team := group_a_team tS, group_b_team := group_b_team tS\<rparr> = tS"
      using st by (cases tT, cases tS) simp
    then show ?thesis using lf Some a b tS by simp
  qed
  have "time_slots final = time_slots S"
  proof (rule alist_eqI)
    show "map fst (time_slots final) = map fst (time_slots S)" using kf keysT keysS by simp
    show "distinct (map fst (time_slots final))" using kf keysT keysS dS by simp
    show "\<And>k. map_of (time_slots final) k = map_of (time_slots S) k" by (rule look)
  qed
  moreover have "mset (teams final) = mset (teams S)"
    unfolding tm using inputs dist by (rule restore_teams_mset)
  ultimately show ?thesis using al allT allS by simp
qed

section \<open>What the optimizer returns\<close>

lemma inputs_exists:
  assumes "mset (map team_input ts) = mset (map team_input us)"
    and "\<exists>t\<in>set ts. name t = n \<and> slot \<in> set (available_slots t)"
  shows "\<exists>u\<in>set us. name u = n \<and> slot \<in> set (available_slots u)"
proof -
  from assms(2) obtain t where t: "t \<in> set ts" "name t = n" "slot \<in> set (available_slots t)"
    by blast
  have "team_input t \<in> set (map team_input ts)" using t(1) by simp
  then have "team_input t \<in> set (map team_input us)" using assms(1) by (metis set_mset_mset)
  then obtain u where "u \<in> set us" "team_input u = team_input t" by auto
  then show ?thesis using t by (auto simp: team_input_def)
qed

lemma admissible_schedule_inputs:
  assumes "mset (map team_input ts) = mset (map team_input us)"
    and "admissible_schedule ts sched"
  shows "admissible_schedule us sched"
  using assms(2) inputs_exists[OF assms(1)] unfolding admissible_schedule_def by blast

lemma names_mset:
  assumes "mset (map team_input ts) = mset (map team_input us)"
  shows "mset (map name ts) = mset (map name us)"
proof -
  have "\<And>xs. map name xs = map fst (map team_input xs)" by (simp add: team_input_def)
  then have "\<And>xs. mset (map name xs) = image_mset fst (mset (map team_input xs))"
    by (simp only: mset_map)
  then show ?thesis using assms by simp
qed

lemma greedy_run:
  assumes "wf_scheduler st"
  shows "schedule_interviews_continuous so st =
           Some (get_schedule_by_group (greedy_result so st), greedy_result so st)"
    and "admissible_schedule (teams st) (get_schedule_by_group (greedy_result so st))"
proof -
  show "schedule_interviews_continuous so st =
           Some (get_schedule_by_group (greedy_result so st), greedy_result so st)"
    by (simp add: schedule_interviews_continuous_def run_continuous_result[OF assms])
  have "admissible_schedule (teams (greedy_result so st)) (get_schedule_by_group (greedy_result so st))"
    using greedy_result_within wf_distinct[OF greedy_result_wf[OF assms]] by (rule within_admissible)
  moreover have "mset (map team_input (teams (greedy_result so st))) = mset (map team_input (teams st))"
    by (simp add: greedy_result_input)
  ultimately show "admissible_schedule (teams st) (get_schedule_by_group (greedy_result so st))"
    using admissible_schedule_inputs by blast
qed

lemma iteration_state_within:
  "within_availability (iteration_state shuffle so st (Suc k))"
  by (simp add: greedy_result_within)

lemma optimize_schedule_none: "optimize_schedule shuffle so 0 st = Some (None, st)"
  by (simp add: optimize_schedule_def restore_best_def initial_best_def)

lemma optimize_schedule_sound:
  assumes wf: "wf_scheduler st" and sh: "shuffles shuffle" and n: "0 < n"
  shows "\<exists>sched final. optimize_schedule shuffle so n st = Some (Some sched, final) \<and>
      admissible_schedule (teams st) sched \<and>
      (\<forall>slot g nm. occupant final slot g = Some nm \<longrightarrow>
         (\<exists>t\<in>set (teams st). name t = nm \<and> slot \<in> set (available_slots t))) \<and>
      mset (map team_input (teams final)) = mset (map team_input (teams st))"
proof -
  let ?I = "iteration_state shuffle so st"
  from optimize_schedule_run[OF wf sh n, of so] obtain m k final where
    fb: "first_best shuffle so st k m"
    and rs: "restore_best (?I m) (snapshot (?I (Suc k))) = Some final"
    and run: "optimize_schedule shuffle so n st =
        Some (Some (get_schedule_by_group (?I (Suc k))), final)"
    by blast
  let ?S = "?I (Suc k)" and ?T = "?I m"
  have wfS: "wf_scheduler ?S" and wfT: "wf_scheduler ?T"
    using wf by (rule iteration_state_wf)+
  have inS: "mset (map team_input (teams ?S)) = mset (map team_input (teams st))"
    and inT: "mset (map team_input (teams ?T)) = mset (map team_input (teams st))"
    using sh by (rule iteration_state_inputs)+
  have wS: "within_availability ?S" by (rule iteration_state_within)
  have admS: "admissible_schedule (teams ?S) (get_schedule_by_group ?S)"
    using wS wf_distinct[OF wfS] by (rule within_admissible)
  have adm: "admissible_schedule (teams st) (get_schedule_by_group ?S)"
    using admissible_schedule_inputs[OF inS admS] .
  from restore_best_result[OF wfT wfS] rs have
    fin: "map team_input (teams final) = map team_input (teams ?T)"
    and emp: "teams ?S = [] \<longrightarrow> final = ?T"
    and kf: "teams ?S \<noteq> [] \<longrightarrow> map fst (time_slots final) = map fst (time_slots ?T)"
    and lf: "teams ?S \<noteq> [] \<longrightarrow> (\<forall>k tT. map_of (time_slots ?T) k = Some tT \<longrightarrow>
           map_of (time_slots final) k =
             Some (tT\<lparr>group_a_team := map_of (fst (get_schedule_by_group ?S)) k,
                      group_b_team := map_of (snd (get_schedule_by_group ?S)) k\<rparr>))"
    by auto
  have mpos: "0 < m" using fb by (simp add: first_best_def)
  have occ: "\<exists>t\<in>set (teams st). name t = nm \<and> slot \<in> set (available_slots t)"
    if o: "occupant final slot g = Some nm" for slot g nm
  proof (cases "teams ?S = []")
    case True
    then have "final = ?T" using emp by simp
    moreover obtain m' where "m = Suc m'" using mpos by (cases m) auto
    ultimately have "within_availability final" using iteration_state_within by simp
    then have "\<exists>t\<in>set (teams final). name t = nm \<and> slot \<in> set (available_slots t)"
      using o unfolding within_availability_def by blast
    moreover have "mset (map team_input (teams final)) = mset (map team_input (teams st))"
      using fin inT by simp
    ultimately show ?thesis using inputs_exists by blast
  next
    case False
    from o obtain tf where tf: "map_of (time_slots final) slot = Some tf"
      by (auto simp: occupant_def split: option.splits)
    then have "slot \<in> set (map fst (time_slots final))"
      by (metis map_of_eq_None_iff option.distinct(1) set_map)
    then have "slot \<in> set (map fst (time_slots ?T))" using kf False by metis
    then obtain tT where tT: "map_of (time_slots ?T) slot = Some tT"
      by (metis map_of_eq_None_iff not_Some_eq set_map)
    then have "tf = tT\<lparr>group_a_team := map_of (fst (get_schedule_by_group ?S)) slot,
                      group_b_team := map_of (snd (get_schedule_by_group ?S)) slot\<rparr>"
      using lf False tf by simp
    then have "(g = GA \<and> map_of (fst (get_schedule_by_group ?S)) slot = Some nm) \<or>
               (g = GB \<and> map_of (snd (get_schedule_by_group ?S)) slot = Some nm)"
      using o tf by (cases g) (simp_all add: occupant_def)
    then have "(slot, nm) \<in> set (fst (get_schedule_by_group ?S)) \<union> set (snd (get_schedule_by_group ?S))"
      by (auto dest: map_of_SomeD)
    then show ?thesis using adm unfolding admissible_schedule_def by force
  qed
  have "mset (map team_input (teams final)) = mset (map team_input (teams st))"
    using fin inT by simp
  then show ?thesis using run adm occ by blast
qed

lemma gap_scan_cong:
  "time_slots a = time_slots b \<Longrightarrow> gap_scan a g slots i acc = gap_scan b g slots i acc"
  by (induction slots arbitrary: i acc) (auto simp: Let_def split: option.split)

lemma gap_dates_cong:
  "time_slots a = time_slots b \<Longrightarrow> all_slots a = all_slots b \<Longrightarrow>
   gap_dates a g ds acc = gap_dates b g ds acc"
  by (induction ds arbitrary: acc) (simp_all add: gap_scan_cong[of a b] split: option.split)

lemma gap_groups_cong:
  "time_slots a = time_slots b \<Longrightarrow> all_slots a = all_slots b \<Longrightarrow>
   gap_groups a gs acc = gap_groups b gs acc"
  by (induction gs arbitrary: acc) (simp_all add: gap_dates_cong[of a b] split: option.split)

lemma gap_score_cong:
  "time_slots a = time_slots b \<Longrightarrow> all_slots a = all_slots b \<Longrightarrow>
   calculate_gap_score a = calculate_gap_score b"
  unfolding calculate_gap_score_def by (rule gap_groups_cong)

lemma assigned_count_mset:
  "mset (teams a) = mset (teams b) \<Longrightarrow> assigned_count a = assigned_count b"
  unfolding assigned_count_def by (metis mset_filter size_mset)

lemma within_availability_cong:
  assumes "time_slots a = time_slots b" and "mset (teams a) = mset (teams b)"
    and "within_availability b"
  shows "within_availability a"
proof -
  have "set (teams a) = set (teams b)" using assms(2) by (rule mset_eq_setD)
  moreover have "\<And>slot g. occupant a slot g = occupant b slot g"
    using assms(1) by (simp add: occupant_def)
  ultimately show ?thesis using assms(3) by (simp add: within_availability_def)
qed

lemma optimize_schedule_exact:
  assumes wf: "wf_scheduler st" and sh: "shuffles shuffle" and n: "0 < n"
    and ne: "teams st \<noteq> []" and dist: "distinct (map name (teams st))"
    and names: "\<forall>t\<in>set (teams st). name t \<noteq> []"
  shows "\<exists>m k final. first_best shuffle so st k m \<and> m \<le> n \<and>
      (\<forall>j. Suc j < m \<longrightarrow> \<not> perfect (iteration_state shuffle so st (Suc j))) \<and>
      (m = n \<or> perfect (iteration_state shuffle so st m)) \<and>
      optimize_schedule shuffle so n st =
        Some (Some (get_schedule_by_group (iteration_state shuffle so st (Suc k))), final) \<and>
      all_slots final = all_slots (iteration_state shuffle so st (Suc k)) \<and>
      time_slots final = time_slots (iteration_state shuffle so st (Suc k)) \<and>
      mset (teams final) = mset (teams (iteration_state shuffle so st (Suc k))) \<and>
      map team_input (teams final) = map team_input (teams (iteration_state shuffle so st m))"
proof -
  let ?I = "iteration_state shuffle so st"
  from optimize_schedule_run[OF wf sh n, of so] obtain m k final where
    fb: "first_best shuffle so st k m" and m: "m \<le> n"
    and np: "\<forall>j. Suc j < m \<longrightarrow> \<not> perfect (?I (Suc j))"
    and stop: "m = n \<or> perfect (?I m)"
    and rs: "restore_best (?I m) (snapshot (?I (Suc k))) = Some final"
    and run: "optimize_schedule shuffle so n st =
        Some (Some (get_schedule_by_group (?I (Suc k))), final)"
    by blast
  let ?S = "?I (Suc k)" and ?T = "?I m"
  have wfS: "wf_scheduler ?S" and wfT: "wf_scheduler ?T"
    using wf by (rule iteration_state_wf)+
  have inS: "mset (map team_input (teams ?S)) = mset (map team_input (teams st))"
    and inT: "mset (map team_input (teams ?T)) = mset (map team_input (teams st))"
    using sh by (rule iteration_state_inputs)+
  have static: "slot_static ?T = slot_static ?S"
    by (simp only: iteration_state_static)
  have nm: "mset (map name (teams ?S)) = mset (map name (teams st))"
    using inS by (rule names_mset)
  have neS: "teams ?S \<noteq> []"
    using ne iteration_state_length[OF sh, of so st "Suc k"] by (metis length_0_conv)
  have distS: "distinct (map name (teams ?S))"
    using dist nm by (metis mset_eq_imp_distinct_iff)
  have namesS: "\<forall>t\<in>set (teams ?S). name t \<noteq> []"
  proof
    fix t assume "t \<in> set (teams ?S)"
    then have "name t \<in> set (map name (teams ?S))" by simp
    then have "name t \<in> set (map name (teams st))" using nm by (metis set_mset_mset)
    then show "name t \<noteq> []" using names by auto
  qed
  have occS: "\<forall>slot g n. occupant ?S slot g = Some n \<longrightarrow> n \<noteq> []"
    using iteration_state_within[of shuffle so st k] namesS
    unfolding within_availability_def by blast
  have "time_slots final = time_slots ?S \<and> mset (teams final) = mset (teams ?S) \<and>
         all_slots final = all_slots ?S"
    using wfT wfS static neS _ distS occS rs
    by (rule restore_best_exact) (simp only: inS inT)
  moreover have "map team_input (teams final) = map team_input (teams ?T)"
    using restore_best_result[OF wfT wfS] rs by auto
  ultimately show ?thesis using fb m np stop run by blast
qed

section \<open>The optimizer on concrete schedulers\<close>

lemma trio_optimized_schedule:
  "map_option fst (optimize_schedule reverse_later remdups 2 trio) =
     Some (Some ([(''9/12 20:30-21:15'', ''T1''), (''9/12 21:15-22:00'', ''T3'')],
                 [(''9/12 20:30-21:15'', ''T2'')]))"
  by code_simp

lemma trio_optimized_slots:
  "map_option (get_schedule_by_group \<circ> snd) (optimize_schedule reverse_later remdups 2 trio) =
     Some ([(''9/12 20:30-21:15'', ''T1''), (''9/12 21:15-22:00'', ''T3'')],
           [(''9/12 20:30-21:15'', ''T2'')])"
  by code_simp

lemma trio_optimized_teams:
  "map_option (team_assignments \<circ> snd) (optimize_schedule reverse_later remdups 2 trio) =
     Some [(''T3'', Some ''9/12 21:15-22:00'', Some GA, None),
           (''T2'', Some ''9/12 20:30-21:15'', Some GB, None),
           (''T1'', Some ''9/12 20:30-21:15'', Some GA, None)]"
  by code_simp

lemma trio_last_iteration:
  "get_schedule_by_group (iteration_state reverse_later remdups trio 2) =
     ([(''9/12 20:30-21:15'', ''T3''), (''9/13 10:00-10:45'', ''T1'')],
      [(''9/12 20:30-21:15'', ''T2'')])"
  by code_simp

lemma trio_greedy_teams:
  "map_option team_assignments (run_continuous remdups trio) =
     Some [(''T1'', Some ''9/12 20:30-21:15'', Some GA, None),
           (''T2'', Some ''9/12 20:30-21:15'', Some GB, None),
           (''T3'', Some ''9/12 21:15-22:00'', Some GA, None)]"
  by code_simp

lemma namesakes_optimized:
  "map_option (team_assignments \<circ> snd) (optimize_schedule keep_order remdups 1 namesakes) =
     Some [(''T1'', Some ''9/12 19:00-19:45'', Some GA, None),
           (''T1'', Some ''9/12 19:00-19:45'', Some GA, None)]"
  "team_assignments (iteration_state keep_order remdups namesakes 1) =
     [(''T1'', Some ''9/12 19:00-19:45'', Some GA, None),
      (''T1'', Some ''9/12 19:45-20:30'', Some GA, None)]"
  by code_simp+

lemma nameless_optimized:
  "map_option (\<lambda>r. occupant (snd r) ''9/12 19:00-19:45'' GA)
     (optimize_schedule keep_order remdups 1 nameless) = Some None"
  "occupant (iteration_state keep_order remdups nameless 1) ''9/12 19:00-19:45'' GA = Some []"
  "map_option (team_assignments \<circ> snd) (optimize_schedule keep_order remdups 1 nameless) =
     Some [([], Some ''9/12 19:00-19:45'', Some GA, None)]"
  by code_simp+

section \<open>The exact solver and the teams it is given\<close>

lemma options_loop_filter:
  "options_loop ts slots solve strs acc =
     acc @ List.map_filter
       (\<lambda>(strategy, number).
          if succeeded ts slots (solve strategy)
          then Some \<lparr>option_name = number, strategy_type = strategy,
                     schedules = extract_solution ts slots (snd (solve strategy))\<rparr>
          else None) strs"
proof (induction strs arbitrary: acc)
  case Nil
  then show ?case by (simp add: List.map_filter_simps)
next
  case (Cons p strs)
  obtain strategy number where p: "p = (strategy, number)" by (cases p)
  show ?case
    unfolding p
    by (simp add: Cons List.map_filter_simps generate_single_option_def succeeded_def)
qed

lemma extract_teams_filter:
  "map schedule_team
     (concat (map (\<lambda>t. case f t of
                          None \<Rightarrow> []
                        | Some s \<Rightarrow> [\<lparr>schedule_team = t, schedule_slot = s, preference_rank = r t\<rparr>])
                xs)) =
   filter (\<lambda>t. f t \<noteq> None) xs"
  by (induction xs) (auto split: option.split)

lemma extract_solution_teams:
  "subseq (map schedule_team (extract_solution ts slots v)) ts"
  unfolding extract_solution_def extract_teams_filter by (rule subseq_filter_left)

lemma five_options_teams:
  assumes "generate_five_options ts slots solve = Inr options" and "opt \<in> set options"
  shows "subseq (map schedule_team (schedules opt)) ts"
proof -
  have "options = options_loop ts slots solve strategies []"
    using assms(1) by (auto simp: generate_five_options_def split: if_splits)
  then show ?thesis
    using assms(2) unfolding options_loop_filter
    by (auto simp: List.map_filter_def extract_solution_teams split: if_splits)
qed

section \<open>Availability containment, team records and the restored state\<close>

lemma trio_wf: "wf_scheduler trio"
  by (simp add: trio_def add_team_wf fresh_scheduler_wf)

lemma trio_names: "team_names trio = [''T1'', ''T2'', ''T3'']"
  by code_simp

lemma trio_fresh: "team_assignments trio =
     [(''T1'', None, None, None), (''T2'', None, None, None), (''T3'', None, None, None)]"
  by code_simp

lemma trio_names_ok:
  "teams trio \<noteq> []" "distinct (team_names trio)" "[] \<notin> set (team_names trio)"
proof -
  show "teams trio \<noteq> []" using trio_names by (auto simp: team_names_def)
  show "distinct (team_names trio)" unfolding trio_names by simp
  show "[] \<notin> set (team_names trio)" unfolding trio_names by simp
qed

lemma team_names_nonempty:
  "[] \<notin> set (team_names st) \<Longrightarrow> \<forall>t\<in>set (teams st). name t \<noteq> []"
  unfolding team_names_def by (metis image_eqI list.set_map)

lemma nameless_occupants:
  "map_option (slot_occupants \<circ> snd) (optimize_schedule keep_order remdups 1 nameless) = Some []"
  "slot_occupants (iteration_state keep_order remdups nameless 1) =
     [(''9/12 19:00-19:45'', GA, [])]"
  by code_simp+

lemma reverse_later_shuffles: "shuffles reverse_later"
  by (simp add: shuffles_def reverse_later_def)

lemma trio_optimized_names:
  "map_option (team_names \<circ> snd) (optimize_schedule reverse_later remdups 2 trio) =
     Some [''T3'', ''T2'', ''T1'']"
  by code_simp

lemma optimize_schedule_within:
  assumes wf: "wf_scheduler st" and sh: "shuffles shuffle" and n: "0 < n"
    and dist: "distinct (map name (teams st))"
    and names: "\<forall>t\<in>set (teams st). name t \<noteq> []"
  shows "\<exists>sched final. optimize_schedule shuffle so n st = Some (sched, final) \<and>
           within_availability final"
proof (cases "teams st = []")
  case True
  let ?I = "iteration_state shuffle so st"
  from optimize_schedule_run[OF wf sh n, of so] obtain m k final where
    fb: "first_best shuffle so st k m"
    and rs: "restore_best (?I m) (snapshot (?I (Suc k))) = Some final"
    and run: "optimize_schedule shuffle so n st =
        Some (Some (get_schedule_by_group (?I (Suc k))), final)"
    by blast
  have "length (teams (?I (Suc k))) = 0"
    using iteration_state_length[OF sh, of so st "Suc k"] True by (metis length_0_conv)
  then have "teams (?I (Suc k)) = []" by (metis length_0_conv)
  then have "final = ?I m"
    using restore_best_result[OF iteration_state_wf[OF wf] iteration_state_wf[OF wf],
        of shuffle so m shuffle so "Suc k"] rs
    by auto
  moreover obtain m' where "m = Suc m'" using fb by (cases m) (auto simp: first_best_def)
  ultimately have "within_availability final" using iteration_state_within by metis
  then show ?thesis using run by blast
next
  case False
  from optimize_schedule_exact[OF wf sh n False dist names, of so] obtain m k final where
    run: "optimize_schedule shuffle so n st =
        Some (Some (get_schedule_by_group (iteration_state shuffle so st (Suc k))), final)"
    and ts: "time_slots final = time_slots (iteration_state shuffle so st (Suc k))"
    and tm: "mset (teams final) = mset (teams (iteration_state shuffle so st (Suc k)))"
    by blast
  have "within_availability final"
    using ts tm iteration_state_within by (rule within_availability_cong)
  then show ?thesis using run by blast
qed

text \<open>
  C2, as amended. On a scheduler as the constructor and \<open>add_team\<close> build it, the greedy
  engine returns, its result satisfies availability containment (\<open>within_availability\<close>)
  and every entry of the schedule it returns names a team of the input with the slot in its
  availability list. The optimizer returns; every entry of the schedule it returns names a
  team of the input with the slot in its availability list; after at least one iteration
  the same holds for every holder of a (slot, track) pair of the scheduler it leaves, and,
  when the team names are pairwise distinct and none is empty, that scheduler satisfies
  availability containment with its team records too. In the one-track scheduler every
  entry of the schedule of the greedy engine, and of the backtracking engine with its
  greedy fallback, names a team with the slot in its availability list. The permutation
  drawn by \<open>random.shuffle\<close> and the listing order of a set are arbitrary. The exact solver
  is not covered: its teams declare no availability list, only preferred time windows.
\<close>

theorem engines_assign_within_availability:
  assumes "wf_scheduler st" and "shuffles shuffle"
  shows "(\<exists>sched st'. schedule_interviews_continuous so st = Some (sched, st') \<and>
            within_availability st' \<and> admissible_schedule (teams st) sched) \<and>
     (\<exists>sched final. optimize_schedule shuffle so max_iterations st = Some (sched, final) \<and>
        (\<forall>s. sched = Some s \<longrightarrow> admissible_schedule (teams st) s) \<and>
        (0 < max_iterations \<longrightarrow>
           (\<forall>slot g nm. occupant final slot g = Some nm \<longrightarrow>
              (\<exists>t\<in>set (teams st). name t = nm \<and> slot \<in> set (available_slots t)))) \<and>
        (0 < max_iterations \<and> distinct (team_names st) \<and> [] \<notin> set (team_names st) \<longrightarrow>
           within_availability final)) \<and>
     admissible_entries (ostatic ost) (fst (greedy_scheduling ost)) \<and>
     (\<exists>sched ost'. backtrack_scheduling ost = Some (sched, ost') \<and>
        admissible_entries (ostatic ost) sched)"
proof -
  have greedy: "\<exists>sched st'. schedule_interviews_continuous so st = Some (sched, st') \<and>
            within_availability st' \<and> admissible_schedule (teams st) sched"
    using greedy_run[OF assms(1), of so] greedy_result_within by blast
  have opt: "\<exists>sched final. optimize_schedule shuffle so max_iterations st = Some (sched, final) \<and>
        (\<forall>s. sched = Some s \<longrightarrow> admissible_schedule (teams st) s) \<and>
        (0 < max_iterations \<longrightarrow>
           (\<forall>slot g nm. occupant final slot g = Some nm \<longrightarrow>
              (\<exists>t\<in>set (teams st). name t = nm \<and> slot \<in> set (available_slots t)))) \<and>
        (0 < max_iterations \<and> distinct (team_names st) \<and> [] \<notin> set (team_names st) \<longrightarrow>
           within_availability final)"
  proof (cases "0 < max_iterations")
    case False
    then show ?thesis by (simp add: optimize_schedule_none)
  next
    case True
    from optimize_schedule_sound[OF assms True, of so] obtain sched final where
      run: "optimize_schedule shuffle so max_iterations st = Some (Some sched, final)"
      and adm: "admissible_schedule (teams st) sched"
      and occ: "\<forall>slot g nm. occupant final slot g = Some nm \<longrightarrow>
         (\<exists>t\<in>set (teams st). name t = nm \<and> slot \<in> set (available_slots t))"
      by blast
    have "within_availability final"
      if d: "distinct (team_names st)" and e: "[] \<notin> set (team_names st)"
    proof -
      have "distinct (map name (teams st))" using d by (simp add: team_names_def)
      from optimize_schedule_within[OF assms True this team_names_nonempty[OF e], of so]
      show ?thesis using run by auto
    qed
    then show ?thesis using run adm occ by auto
  qed
  show ?thesis
    using greedy opt greedy_scheduling_sound backtrack_scheduling_sound by blast
qed

text \<open>
  The witness: the three teams of \<open>trio\<close> under the greedy engine and under two iterations
  of the optimizer, and the three teams of \<open>dead_end\<close> under the one-track engines.
\<close>

theorem engines_assign_within_availability_witness:
  "wf_scheduler trio \<and> shuffles reverse_later \<and>
   (\<exists>sched st'. schedule_interviews_continuous remdups trio = Some (sched, st') \<and>
            within_availability st' \<and> admissible_schedule (teams trio) sched) \<and>
   (\<exists>sched final. optimize_schedule reverse_later remdups 2 trio = Some (Some sched, final) \<and>
        admissible_schedule (teams trio) sched \<and> within_availability final) \<and>
   admissible_entries (ostatic dead_end) (fst (greedy_scheduling dead_end)) \<and>
   (\<exists>sched ost'. backtrack_scheduling dead_end = Some (sched, ost') \<and>
        admissible_entries (ostatic dead_end) sched) \<and>
   map_option fst (optimize_schedule reverse_later remdups 2 trio) =
     Some (Some ([(''9/12 20:30-21:15'', ''T1''), (''9/12 21:15-22:00'', ''T3'')],
                 [(''9/12 20:30-21:15'', ''T2'')]))"
proof -
  have names: "distinct (team_names trio) \<and> [] \<notin> set (team_names trio)"
    using trio_names_ok by simp
  obtain sched final where run: "optimize_schedule reverse_later remdups 2 trio = Some (sched, final)"
    and a: "\<forall>s. sched = Some s \<longrightarrow> admissible_schedule (teams trio) s"
    and w: "within_availability final"
    using engines_assign_within_availability[OF trio_wf reverse_later_shuffles,
        of remdups 2 dead_end] names
    by auto
  obtain s where "sched = Some s" using run trio_optimized_schedule by auto
  then have "\<exists>sched final. optimize_schedule reverse_later remdups 2 trio = Some (Some sched, final) \<and>
        admissible_schedule (teams trio) sched \<and> within_availability final"
    using run a w by blast
  then show ?thesis
    using engines_assign_within_availability[OF trio_wf reverse_later_shuffles,
        of remdups 2 dead_end] trio_wf reverse_later_shuffles trio_optimized_schedule
    by blast
qed

text \<open>
  C4, as amended. No solve run changes the name, the availability list, the e-mail or the
  phone of a team record. In the two-track scheduler the list of these inputs is the same,
  in the same order, after the greedy engine, and a permutation of the list before after
  the optimizer. In the one-track scheduler it is the same, in the same order, after the
  greedy engine, and after the backtracking engine it is the list sorted by the size of the
  availability lists, because \<open>self.teams.sort\<close> sorts in place. These engines write their
  results into the team records of the scheduler. The exact solver writes into no team
  record: the schedules it returns are new objects that hold teams of the list it was
  given, unchanged and in the order of that list, for a single solve and for every option
  of the five-strategy entry point.
\<close>

theorem engines_preserve_team_inputs:
  assumes "wf_scheduler st" and "shuffles shuffle"
  shows "(\<exists>sched st'. schedule_interviews_continuous so st = Some (sched, st') \<and>
            map team_input (teams st') = map team_input (teams st)) \<and>
         (\<exists>sched final. optimize_schedule shuffle so max_iterations st = Some (sched, final) \<and>
            mset (map team_input (teams final)) = mset (map team_input (teams st))) \<and>
         map oteam_input (oteams (snd (greedy_scheduling ost))) = map oteam_input (oteams ost) \<and>
         (\<exists>sched ost'. backtrack_scheduling ost = Some (sched, ost') \<and>
            map oteam_input (oteams ost') =
              map oteam_input (sort_key (\<lambda>t. length (oavailable_slots t)) (oteams ost))) \<and>
         subseq (map schedule_team (extract_solution ts slots v)) ts \<and>
         (\<forall>options. generate_five_options ts slots solve = Inr options \<longrightarrow>
            (\<forall>opt\<in>set options. subseq (map schedule_team (schedules opt)) ts))"
proof -
  have opt: "\<exists>sched final. optimize_schedule shuffle so max_iterations st = Some (sched, final) \<and>
            mset (map team_input (teams final)) = mset (map team_input (teams st))"
  proof (cases "0 < max_iterations")
    case False
    then show ?thesis by (simp add: optimize_schedule_none)
  next
    case True
    then show ?thesis using optimize_schedule_sound[OF assms True, of so] by blast
  qed
  have greedy: "\<exists>sched st'. schedule_interviews_continuous so st = Some (sched, st') \<and>
            map team_input (teams st') = map team_input (teams st)"
    using greedy_run(1)[OF assms(1), of so] greedy_result_input by blast
  show ?thesis
    using greedy opt greedy_scheduling_input backtrack_scheduling_input extract_solution_teams
      five_options_teams
    by blast
qed

text \<open>
  The witness: \<open>trio\<close> under the greedy engine and under two iterations of the optimizer,
  \<open>dead_end\<close> and \<open>long_first\<close> under the one-track engines, one team under the exact solver.
\<close>

theorem engines_preserve_team_inputs_witness:
  "wf_scheduler trio \<and> shuffles reverse_later \<and>
   (\<exists>sched st'. schedule_interviews_continuous remdups trio = Some (sched, st') \<and>
            map team_input (teams st') = map team_input (teams trio)) \<and>
   (\<exists>sched final. optimize_schedule reverse_later remdups 2 trio = Some (sched, final) \<and>
            mset (map team_input (teams final)) = mset (map team_input (teams trio))) \<and>
   map oteam_input (oteams (snd (greedy_scheduling dead_end))) = map oteam_input (oteams dead_end) \<and>
   (\<exists>sched ost'. backtrack_scheduling long_first = Some (sched, ost') \<and>
      map oteam_input (oteams ost') =
        map oteam_input (sort_key (\<lambda>t. length (oavailable_slots t)) (oteams long_first))) \<and>
   subseq (map schedule_team (extract_solution lone_team example_slots phantom_b)) lone_team \<and>
   (\<exists>options. generate_five_options lone_team example_slots only_fifth = Inr options \<and>
      (\<forall>opt\<in>set options. subseq (map schedule_team (schedules opt)) lone_team))"
proof -
  have "\<exists>options. generate_five_options lone_team example_slots only_fifth = Inr options"
    by (simp add: generate_five_options_def lone_team_def)
  then have five: "\<exists>options. generate_five_options lone_team example_slots only_fifth = Inr options \<and>
      (\<forall>opt\<in>set options. subseq (map schedule_team (schedules opt)) lone_team)"
    using engines_preserve_team_inputs[OF trio_wf reverse_later_shuffles,
        of remdups 2 dead_end lone_team example_slots phantom_b only_fifth]
    by blast
  show ?thesis
    using engines_preserve_team_inputs[OF trio_wf reverse_later_shuffles,
        of remdups 2 dead_end lone_team example_slots phantom_b only_fifth]
      engines_preserve_team_inputs[OF trio_wf reverse_later_shuffles,
        of remdups 2 long_first lone_team example_slots phantom_b only_fifth]
      trio_wf reverse_later_shuffles five
    by blast
qed

text \<open>
  The counterexample: before the greedy engine runs on \<open>trio\<close> no team record holds an
  assignment, afterwards each one holds its slot and track; after two iterations of the
  optimizer, the second on the reversed list, the team list is in the reversed order. In
  the one-track scheduler the greedy engine writes the assigned slots into the team records
  of \<open>dead_end\<close>, and the backtracking engine leaves the team list of \<open>long_first\<close> sorted, B
  before A, with the assigned slots written.
\<close>

theorem engines_write_into_team_records:
  "team_assignments trio =
     [(''T1'', None, None, None), (''T2'', None, None, None), (''T3'', None, None, None)] \<and>
   map_option team_assignments (run_continuous remdups trio) =
     Some [(''T1'', Some ''9/12 20:30-21:15'', Some GA, None),
           (''T2'', Some ''9/12 20:30-21:15'', Some GB, None),
           (''T3'', Some ''9/12 21:15-22:00'', Some GA, None)] \<and>
   team_names trio = [''T1'', ''T2'', ''T3''] \<and>
   map_option (team_names \<circ> snd) (optimize_schedule reverse_later remdups 2 trio) =
     Some [''T3'', ''T2'', ''T1''] \<and>
   oassigned_slots dead_end = [None, None, None] \<and>
   oassigned_slots (snd (greedy_scheduling dead_end)) =
     [Some ''9/12 19:00-19:45'', Some ''9/12 20:30-21:15'', None] \<and>
   oteam_names long_first = [''A'', ''B''] \<and>
   map_option (oteam_names \<circ> snd) (backtrack_scheduling long_first) = Some [''B'', ''A''] \<and>
   map_option (oassigned_slots \<circ> snd) (backtrack_scheduling long_first) =
     Some [Some ''9/12 19:00-19:45'', Some ''9/12 19:45-20:30'']"
  using trio_fresh trio_greedy_teams trio_names trio_optimized_names one_track_writes by simp

text \<open>
  C10, as amended. For a scheduler as the constructor and \<open>add_team\<close> build it, with at least
  one team, team names that are pairwise distinct and not empty, and a positive iteration
  cap: the optimizer returns after \<open>m\<close> iterations, where \<open>m\<close> is the cap or the first
  perfect iteration; the schedule returned is that of iteration \<open>k\<close>, the first of the
  \<open>m\<close> that none of them is better than in (assigned count, gap score); the slot table left
  behind is that of iteration \<open>k\<close> and the team records are those of iteration \<open>k\<close>, in the
  order of the last iteration; so the schedule, the assigned count and the gap score
  computed afterwards are those of iteration \<open>k\<close>.
\<close>

theorem optimizer_restores_first_best_iteration:
  assumes "wf_scheduler st" and "shuffles shuffle" and "0 < max_iterations"
    and "teams st \<noteq> []" and "distinct (team_names st)" and "[] \<notin> set (team_names st)"
  shows "\<exists>m k final. first_best shuffle so st k m \<and> m \<le> max_iterations \<and>
      (\<forall>j. Suc j < m \<longrightarrow> \<not> perfect (iteration_state shuffle so st (Suc j))) \<and>
      (m = max_iterations \<or> perfect (iteration_state shuffle so st m)) \<and>
      optimize_schedule shuffle so max_iterations st =
        Some (Some (get_schedule_by_group (iteration_state shuffle so st (Suc k))), final) \<and>
      all_slots final = all_slots (iteration_state shuffle so st (Suc k)) \<and>
      time_slots final = time_slots (iteration_state shuffle so st (Suc k)) \<and>
      mset (teams final) = mset (teams (iteration_state shuffle so st (Suc k))) \<and>
      map team_input (teams final) = map team_input (teams (iteration_state shuffle so st m)) \<and>
      get_schedule_by_group final = get_schedule_by_group (iteration_state shuffle so st (Suc k)) \<and>
      assigned_count final = assigned_count (iteration_state shuffle so st (Suc k)) \<and>
      calculate_gap_score final = calculate_gap_score (iteration_state shuffle so st (Suc k))"
proof -
  let ?I = "iteration_state shuffle so st"
  have d: "distinct (map name (teams st))" using assms(5) by (simp add: team_names_def)
  from optimize_schedule_exact[OF assms(1-4) d team_names_nonempty[OF assms(6)], of so]
  obtain m k final where
    fb: "first_best shuffle so st k m" and m: "m \<le> max_iterations"
    and np: "\<forall>j. Suc j < m \<longrightarrow> \<not> perfect (?I (Suc j))"
    and stop: "m = max_iterations \<or> perfect (?I m)"
    and run: "optimize_schedule shuffle so max_iterations st =
        Some (Some (get_schedule_by_group (?I (Suc k))), final)"
    and al: "all_slots final = all_slots (?I (Suc k))"
    and ts: "time_slots final = time_slots (?I (Suc k))"
    and tm: "mset (teams final) = mset (teams (?I (Suc k)))"
    and inp: "map team_input (teams final) = map team_input (teams (?I m))"
    by blast
  have sched: "get_schedule_by_group final = get_schedule_by_group (?I (Suc k))"
    unfolding get_schedule_by_group_def ts ..
  have cnt: "assigned_count final = assigned_count (?I (Suc k))"
    using tm by (rule assigned_count_mset)
  have gap: "calculate_gap_score final = calculate_gap_score (?I (Suc k))"
    using ts al by (rule gap_score_cong)
  show ?thesis
    using fb m np stop run al ts tm inp sched cnt gap by blast
qed

text \<open>
  The witness: on \<open>trio\<close> the first iteration reaches gap score 1 and the second, on the
  reversed list, sends T1 to Saturday; the scheduler left behind holds the first
  iteration's slots and assignments, not the second's.
\<close>

theorem optimizer_restores_first_best_iteration_witness:
  "wf_scheduler trio \<and> shuffles reverse_later \<and> (0::nat) < 2 \<and> teams trio \<noteq> [] \<and>
   distinct (team_names trio) \<and> [] \<notin> set (team_names trio) \<and>
   (\<exists>m k final. first_best reverse_later remdups trio k m \<and> m \<le> 2 \<and>
      optimize_schedule reverse_later remdups 2 trio =
        Some (Some (get_schedule_by_group (iteration_state reverse_later remdups trio (Suc k))), final) \<and>
      time_slots final = time_slots (iteration_state reverse_later remdups trio (Suc k)) \<and>
      mset (teams final) = mset (teams (iteration_state reverse_later remdups trio (Suc k)))) \<and>
   map_option (get_schedule_by_group \<circ> snd) (optimize_schedule reverse_later remdups 2 trio) =
     Some ([(''9/12 20:30-21:15'', ''T1''), (''9/12 21:15-22:00'', ''T3'')],
           [(''9/12 20:30-21:15'', ''T2'')]) \<and>
   map_option (team_assignments \<circ> snd) (optimize_schedule reverse_later remdups 2 trio) =
     Some [(''T3'', Some ''9/12 21:15-22:00'', Some GA, None),
           (''T2'', Some ''9/12 20:30-21:15'', Some GB, None),
           (''T1'', Some ''9/12 20:30-21:15'', Some GA, None)] \<and>
   get_schedule_by_group (iteration_state reverse_later remdups trio 2) =
     ([(''9/12 20:30-21:15'', ''T3''), (''9/13 10:00-10:45'', ''T1'')],
      [(''9/12 20:30-21:15'', ''T2'')])"
proof -
  note names = trio_names_ok
  have "\<exists>m k final. first_best reverse_later remdups trio k m \<and> m \<le> 2 \<and>
      optimize_schedule reverse_later remdups 2 trio =
        Some (Some (get_schedule_by_group (iteration_state reverse_later remdups trio (Suc k))), final) \<and>
      time_slots final = time_slots (iteration_state reverse_later remdups trio (Suc k)) \<and>
      mset (teams final) = mset (teams (iteration_state reverse_later remdups trio (Suc k)))"
    using optimizer_restores_first_best_iteration[OF trio_wf reverse_later_shuffles _ names,
        of 2 remdups]
    by (simp del: iteration_state.simps) blast
  then show ?thesis
    using trio_wf reverse_later_shuffles names trio_optimized_slots trio_optimized_teams
      trio_last_iteration
    by simp
qed

text \<open>
  The counterexample: the team records are restored by name and the slot table from the
  schedule, which leaves out a holder with the empty name. Of two teams named T1 the second
  ends with the slot of the first, which it did not have in the retained iteration; the
  slot held by a team with the empty name in the retained iteration is free afterwards.
\<close>

theorem optimizer_restore_fails_for_repeated_or_empty_names:
  "map_option (team_assignments \<circ> snd) (optimize_schedule keep_order remdups 1 namesakes) =
     Some [(''T1'', Some ''9/12 19:00-19:45'', Some GA, None),
           (''T1'', Some ''9/12 19:00-19:45'', Some GA, None)] \<and>
   team_assignments (iteration_state keep_order remdups namesakes 1) =
     [(''T1'', Some ''9/12 19:00-19:45'', Some GA, None),
      (''T1'', Some ''9/12 19:45-20:30'', Some GA, None)] \<and>
   map_option (slot_occupants \<circ> snd) (optimize_schedule keep_order remdups 1 nameless) = Some [] \<and>
   slot_occupants (iteration_state keep_order remdups nameless 1) =
     [(''9/12 19:00-19:45'', GA, [])]"
  using namesakes_optimized nameless_occupants by simp

section \<open>The exact solver\<close>

lemma key_in_schedule_keys:
  "t \<in> set ts \<Longrightarrow> s \<in> set slots \<Longrightarrow> (team_id t, slot_id s, g) \<in> set (schedule_keys ts slots)"
  by (cases g) (auto simp: schedule_keys_def)

lemma filter_team_keys:
  assumes "t \<in> set ts"
  shows "filter (\<lambda>k. k \<in> set (schedule_keys ts slots)) (team_keys t slots) = team_keys t slots"
  unfolding filter_id_conv team_keys_def using assms by (auto simp: key_in_schedule_keys)

lemma team_keys_Nil: "team_keys t slots = [] \<longleftrightarrow> slots = []"
  by (cases slots) (simp_all add: team_keys_def)

lemma team_once_plain:
  "team_once ts slots v \<longleftrightarrow>
     (slots = [] \<or> (\<forall>t\<in>set ts. sum_vars (schedule_value v) (team_keys t slots) = 1))"
proof -
  have "team_once ts slots v \<longleftrightarrow>
      (\<forall>t\<in>set ts.
         (let schedule_sum = filter (\<lambda>k. k \<in> set (schedule_keys ts slots)) (team_keys t slots)
          in if schedule_sum \<noteq> [] then sum_vars (schedule_value v) schedule_sum = 1 else True))"
    unfolding team_once_def list_all_iff team_keys_def by simp
  also have "\<dots> \<longleftrightarrow> (\<forall>t\<in>set ts. team_keys t slots \<noteq> [] \<longrightarrow>
                          sum_vars (schedule_value v) (team_keys t slots) = 1)"
    by (simp add: filter_team_keys Let_def cong: ball_cong)
  also have "\<dots> \<longleftrightarrow> (slots = [] \<or> (\<forall>t\<in>set ts. sum_vars (schedule_value v) (team_keys t slots) = 1))"
    unfolding team_keys_Nil by blast
  finally show ?thesis .
qed


lemma filter_slot_keys:
  assumes "s \<in> set slots"
  shows "filter (\<lambda>k. k \<in> set (schedule_keys ts slots)) (map (\<lambda>t. (team_id t, slot_id s, g)) ts)
        = map (\<lambda>t. (team_id t, slot_id s, g)) ts"
  unfolding filter_id_conv using assms by (auto simp: key_in_schedule_keys)

lemma all_groups: "(\<forall>g\<in>set [Group_A, Group_B]. P g) \<longleftrightarrow> (\<forall>g. P g)"
proof
  assume a: "\<forall>g\<in>set [Group_A, Group_B]. P g"
  show "\<forall>g. P g"
  proof
    fix g show "P g" using a by (cases g) simp_all
  qed
qed simp

lemma slot_at_most_one_plain:
  "slot_at_most_one ts slots v \<longleftrightarrow>
     (\<forall>s\<in>set slots. \<forall>g\<in>set [Group_A, Group_B]. sum_vars (schedule_value v) (map (\<lambda>t. (team_id t, slot_id s, g)) ts) \<le> 1)"
proof -
  have "slot_at_most_one ts slots v \<longleftrightarrow>
     (\<forall>s\<in>set slots. \<forall>g\<in>set [Group_A, Group_B].
        (let slot_vars = filter (\<lambda>k. k \<in> set (schedule_keys ts slots))
                           (map (\<lambda>t. (team_id t, slot_id s, g)) ts)
         in if slot_vars \<noteq> [] then sum_vars (schedule_value v) slot_vars \<le> 1 else True))"
    unfolding slot_at_most_one_def list_all_iff by (rule refl)
  also have "\<dots> \<longleftrightarrow> (\<forall>s\<in>set slots. \<forall>g\<in>set [Group_A, Group_B].
        ts \<noteq> [] \<longrightarrow> sum_vars (schedule_value v) (map (\<lambda>t. (team_id t, slot_id s, g)) ts) \<le> 1)"
    by (simp add: filter_slot_keys Let_def cong: ball_cong)
  also have "\<dots> \<longleftrightarrow> (\<forall>s\<in>set slots. \<forall>g\<in>set [Group_A, Group_B].
        sum_vars (schedule_value v) (map (\<lambda>t. (team_id t, slot_id s, g)) ts) \<le> 1)"
    by (cases ts) (simp_all add: sum_vars_def)
  finally show ?thesis .
qed


lemma group_key_in: "t \<in> set ts \<Longrightarrow> (team_id t, g) \<in> set (group_keys ts)"
  by (cases g) (auto simp: group_keys_def)

lemma filter_group_slot_keys:
  assumes "t \<in> set ts"
  shows "filter (\<lambda>k. k \<in> set (schedule_keys ts slots))
           (map (\<lambda>s. (team_id t, slot_id s, g)) (filter (\<lambda>s. slot_group s = g) slots))
        = map (\<lambda>s. (team_id t, slot_id s, g)) (filter (\<lambda>s. slot_group s = g) slots)"
  unfolding filter_id_conv using assms by (auto simp: key_in_schedule_keys)

lemma group_consistent_plain:
  "group_consistent ts slots v \<longleftrightarrow>
     (\<forall>t\<in>set ts. \<forall>g\<in>set [Group_A, Group_B].
        filter (\<lambda>s. slot_group s = g) slots \<noteq> [] \<longrightarrow>
        sum_vars (schedule_value v)
          (map (\<lambda>s. (team_id t, slot_id s, g)) (filter (\<lambda>s. slot_group s = g) slots))
        = (if group_value v (team_id t, g) then 1 else 0))"
proof -
  have body: "\<And>t g. t \<in> set ts \<Longrightarrow>
       (if (team_id t, g) \<notin> set (group_keys ts) then True
        else
          (let group_schedule_vars =
                 filter (\<lambda>k. k \<in> set (schedule_keys ts slots))
                   (map (\<lambda>s. (team_id t, slot_id s, g)) (filter (\<lambda>s. slot_group s = g) slots))
           in if group_schedule_vars \<noteq> []
              then sum_vars (schedule_value v) group_schedule_vars =
                   (if group_value v (team_id t, g) then 1 else 0)
              else True))
       \<longleftrightarrow>
       (filter (\<lambda>s. slot_group s = g) slots \<noteq> [] \<longrightarrow>
        sum_vars (schedule_value v)
          (map (\<lambda>s. (team_id t, slot_id s, g)) (filter (\<lambda>s. slot_group s = g) slots))
        = (if group_value v (team_id t, g) then 1 else 0))"
    by (simp add: filter_group_slot_keys group_key_in Let_def)
  have "group_consistent ts slots v \<longleftrightarrow>
     (\<forall>t\<in>set ts. \<forall>g.
        if (team_id t, g) \<notin> set (group_keys ts) then True
        else
          (let group_schedule_vars =
                 filter (\<lambda>k. k \<in> set (schedule_keys ts slots))
                   (map (\<lambda>s. (team_id t, slot_id s, g)) (filter (\<lambda>s. slot_group s = g) slots))
           in if group_schedule_vars \<noteq> []
              then sum_vars (schedule_value v) group_schedule_vars =
                   (if group_value v (team_id t, g) then 1 else 0)
              else True))"
    unfolding group_consistent_def list_all_iff all_groups by (rule refl)
  also have "\<dots> \<longleftrightarrow> (\<forall>t\<in>set ts. \<forall>g.
        filter (\<lambda>s. slot_group s = g) slots \<noteq> [] \<longrightarrow>
        sum_vars (schedule_value v)
          (map (\<lambda>s. (team_id t, slot_id s, g)) (filter (\<lambda>s. slot_group s = g) slots))
        = (if group_value v (team_id t, g) then 1 else 0))"
    using body by (intro ball_cong refl all_cong1) blast
  finally show ?thesis unfolding all_groups .
qed

lemma sum_list_swap_nat:
  "sum_list (map (\<lambda>x. sum_list (map (\<lambda>y. (h x y :: nat)) ys)) xs) =
   sum_list (map (\<lambda>y. sum_list (map (\<lambda>x. h x y) xs)) ys)"
  by (induction xs) (simp_all add: sum_list_addf)

lemma sum_list_bound:
  "(\<forall>x\<in>set xs. f x \<le> (c::nat)) \<Longrightarrow> sum_list (map f xs) \<le> c * length xs"
  by (induction xs) auto

lemma sum_list_const:
  "(\<forall>x\<in>set xs. f x = (c::nat)) \<Longrightarrow> sum_list (map f xs) = c * length xs"
  by (induction xs) auto

lemma sum_vars_team_keys:
  "sum_vars x (team_keys t slots) =
     sum_list (map (\<lambda>s. (if x (team_id t, slot_id s, Group_A) then 1 else 0) +
                        (if x (team_id t, slot_id s, Group_B) then 1 else (0::nat))) slots)"
  by (induction slots) (simp_all add: sum_vars_def team_keys_def)

lemma sum_vars_slot_keys:
  "sum_vars x (map (\<lambda>t. (team_id t, sid, g)) ts) =
     sum_list (map (\<lambda>t. if x (team_id t, sid, g) then 1 else (0::nat)) ts)"
  by (induction ts) (simp_all add: sum_vars_def)


lemma capacity_bound:
  assumes once: "team_once ts slots v" and most: "slot_at_most_one ts slots v" and ne: "slots \<noteq> []"
  shows "length ts \<le> 2 * length slots"
proof -
  let ?x = "schedule_value v"
  let ?h = "\<lambda>t s. (if ?x (team_id t, slot_id s, Group_A) then 1 else 0) +
                   (if ?x (team_id t, slot_id s, Group_B) then 1 else (0::nat))"
  have "\<forall>t\<in>set ts. sum_list (map (?h t) slots) = 1"
    using once ne unfolding team_once_plain sum_vars_team_keys by simp
  then have total: "sum_list (map (\<lambda>t. sum_list (map (?h t) slots)) ts) = length ts"
    using sum_list_const[of ts "\<lambda>t. sum_list (map (?h t) slots)" 1] by simp
  have "\<forall>s\<in>set slots. sum_list (map (\<lambda>t. ?h t s) ts) \<le> 2"
  proof
    fix s assume s: "s \<in> set slots"
    have "sum_list (map (\<lambda>t. if ?x (team_id t, slot_id s, Group_A) then 1 else (0::nat)) ts) \<le> 1"
      and "sum_list (map (\<lambda>t. if ?x (team_id t, slot_id s, Group_B) then 1 else (0::nat)) ts) \<le> 1"
      using most s unfolding slot_at_most_one_plain sum_vars_slot_keys by simp_all
    then show "sum_list (map (\<lambda>t. ?h t s) ts) \<le> 2"
      by (simp add: sum_list_addf)
  qed
  then have "sum_list (map (\<lambda>s. sum_list (map (\<lambda>t. ?h t s) ts)) slots) \<le> 2 * length slots"
    by (rule sum_list_bound)
  moreover have "sum_list (map (\<lambda>t. sum_list (map (?h t) slots)) ts) =
                 sum_list (map (\<lambda>s. sum_list (map (\<lambda>t. ?h t s) ts)) slots)"
    by (rule sum_list_swap_nat)
  ultimately show ?thesis using total by simp
qed

lemma example_slots_rows:
  "example_slots =
     map (\<lambda>(i, d, a, b, g). \<lparr>slot_id = i, slot_date = d, start_time = a, end_time = b, slot_group = g\<rparr>)
       slot_rows"
  by code_simp

lemma preference_objective_bound:
  "preference_objective w1 w2 w3 ts v \<le> (w1 + w2 + w3) * length ts"
  unfolding preference_objective_def
  by (rule sum_list_bound) simp

lemma length_example_slots: "length example_slots = 84"
  unfolding example_slots_rows by code_simp

lemma phantom_b_feasible:
  "hard_constraints find_matching_slots lone_team example_slots avoid_a phantom_b"
proof -
  have c1: "team_once lone_team example_slots phantom_b"
    unfolding team_once_plain example_slots_rows by code_simp
  have c2: "slot_at_most_one lone_team example_slots phantom_b"
    unfolding slot_at_most_one_plain example_slots_rows by code_simp
  have c3: "group_consistent lone_team example_slots phantom_b"
    unfolding group_consistent_plain example_slots_rows by code_simp
  have c4: "preference_linked find_matching_slots lone_team example_slots phantom_b"
    by (simp add: preference_linked_def lone_team_def)
  have c5: "avoidance_respected lone_team avoid_a phantom_b"
    by code_simp
  show ?thesis
    using c1 c2 c3 c4 c5 by (simp add: hard_constraints_def)
qed

lemma phantom_b_optimal:
  "interviewer_constraint_objective lone_team phantom_b = 16"
  "interviewer_constraint_objective lone_team v \<le> 16"
proof -
  show "interviewer_constraint_objective lone_team phantom_b = 16"
    by code_simp
  show "interviewer_constraint_objective lone_team v \<le> 16"
    using preference_objective_bound[of 10 5 1 lone_team]
    by (simp add: interviewer_constraint_objective_def lone_team_def)
qed

text \<open>
  C7. The model forbids an avoided team only through its group variable, and that
  variable counts only the schedule variables whose group is the group of their slot.
  Every slot also has a variable of the other group, and \<open>_extract_solution\<close> records the
  slot of whichever variable is 1. For team T1, avoided by interviewer I1 of group A, the
  values \<open>phantom_b\<close> satisfy every hard constraint the code adds and reach the maximum of
  the objective of the interviewer-constraints strategy, and the schedule read off puts
  T1 into the slot \<open>s0\<close> of group A.
\<close>

theorem exact_solver_places_team_in_avoided_group:
  "hard_constraints find_matching_slots lone_team example_slots avoid_a phantom_b \<and>
   interviewer_constraint_objective lone_team phantom_b = 16 \<and>
   (\<forall>v. interviewer_constraint_objective lone_team v \<le> 16) \<and>
   map (\<lambda>sch. (team_id (schedule_team sch), schedule_slot sch, violates_avoidance avoid_a sch))
     (extract_solution lone_team example_slots phantom_b) =
     [(''T1'', \<lparr>slot_id = ''s0'', slot_date = ''2025-09-12'', start_time = ''09:00'',
               end_time = ''09:30'', slot_group = Group_A\<rparr>, True)]"
proof -
  have ex: "map (\<lambda>sch. (team_id (schedule_team sch), schedule_slot sch, violates_avoidance avoid_a sch))
     (extract_solution lone_team example_slots phantom_b) =
     [(''T1'', \<lparr>slot_id = ''s0'', slot_date = ''2025-09-12'', start_time = ''09:00'',
               end_time = ''09:30'', slot_group = Group_A\<rparr>, True)]"
    unfolding example_slots_rows by code_simp
  show ?thesis
    using phantom_b_feasible phantom_b_optimal ex by simp
qed

text \<open>
  C1, for the exact solver. The at-most-one constraint is stated per (slot, group
  variable), while a schedule records only the slot, whose group is fixed. The values
  \<open>double_booking\<close> satisfy every hard constraint and reach the maximum of the
  first-preference objective; the schedules read off put T1 and T2 into the same slot
  \<open>s0\<close> of group A, which \<open>validate_solution\<close> reports as a conflict.
\<close>

theorem exact_solver_double_books_slot:
  "hard_constraints find_matching_slots two_teams example_slots no_constraints double_booking \<and>
   first_preference_objective two_teams double_booking = 350 \<and>
   (\<forall>v. first_preference_objective two_teams v \<le> 350) \<and>
   map (\<lambda>sch. (team_id (schedule_team sch), slot_id (schedule_slot sch), slot_group (schedule_slot sch)))
     (extract_solution two_teams example_slots double_booking) =
     [(''T1'', ''s0'', Group_A), (''T2'', ''s0'', Group_A)] \<and>
   slot_conflicts (extract_solution two_teams example_slots double_booking) = [(''s0'', Group_A)]"
proof -
  have c1: "team_once two_teams example_slots double_booking"
    unfolding team_once_plain example_slots_rows by code_simp
  have c2: "slot_at_most_one two_teams example_slots double_booking"
    unfolding slot_at_most_one_plain example_slots_rows by code_simp
  have c3: "group_consistent two_teams example_slots double_booking"
    unfolding group_consistent_plain example_slots_rows by code_simp
  have c4: "preference_linked find_matching_slots two_teams example_slots double_booking"
    by (simp add: preference_linked_def two_teams_def)
  have c5: "avoidance_respected two_teams no_constraints double_booking"
    by code_simp
  have obj: "first_preference_objective two_teams double_booking = 350"
    by code_simp
  have best: "\<forall>v. first_preference_objective two_teams v \<le> 350"
    using preference_objective_bound[of 100 50 25 two_teams]
    by (simp add: first_preference_objective_def two_teams_def)
  have ex: "map (\<lambda>sch. (team_id (schedule_team sch), slot_id (schedule_slot sch), slot_group (schedule_slot sch)))
     (extract_solution two_teams example_slots double_booking) =
     [(''T1'', ''s0'', Group_A), (''T2'', ''s0'', Group_A)]"
    unfolding example_slots_rows by code_simp
  have cf: "slot_conflicts (extract_solution two_teams example_slots double_booking) = [(''s0'', Group_A)]"
    unfolding example_slots_rows by code_simp
  show ?thesis
    using c1 c2 c3 c4 c5 obj best ex cf by (simp add: hard_constraints_def)
qed

text \<open>
  C6, as amended. A strategy whose solve ends in any status but \<open>OPTIMAL\<close> or \<open>FEASIBLE\<close>
  yields \<open>None\<close>, and \<open>generate_five_options\<close> leaves it out: for a non-empty team list the
  output holds, in the order of the strategies, exactly one option for every strategy that
  succeeded, with the schedules read off its solution, so at most five options; for an
  empty team list the call raises \<open>ValueError\<close>.
\<close>

theorem five_options_drop_unsolved_strategies:
  "(ts = [] \<longrightarrow> generate_five_options ts slots solve = Inl ValueError) \<and>
   (ts \<noteq> [] \<longrightarrow>
     (\<exists>options. generate_five_options ts slots solve = Inr options \<and>
        map strategy_type options = filter (\<lambda>s. succeeded ts slots (solve s)) (map fst strategies) \<and>
        (\<forall>opt\<in>set options.
           schedules opt = extract_solution ts slots (snd (solve (strategy_type opt)))) \<and>
        length options \<le> 5)) \<and>
   (\<forall>s n. fst (solve s) \<noteq> OPTIMAL \<and> fst (solve s) \<noteq> FEASIBLE \<longrightarrow>
      generate_single_option ts slots s n (solve s) = None)"
proof -
  let ?f = "\<lambda>(strategy, number).
          if succeeded ts slots (solve strategy)
          then Some \<lparr>option_name = number, strategy_type = strategy,
                     schedules = extract_solution ts slots (snd (solve strategy))\<rparr>
          else None"
  let ?opts = "List.map_filter ?f strategies"
  have loop: "options_loop ts slots solve strategies [] = ?opts"
    by (simp add: options_loop_filter)
  have types: "map strategy_type ?opts = filter (\<lambda>s. succeeded ts slots (solve s)) (map fst strategies)"
    by (simp add: strategies_def List.map_filter_simps)
  have scheds: "\<forall>opt\<in>set ?opts. schedules opt = extract_solution ts slots (snd (solve (strategy_type opt)))"
    by (auto simp: List.map_filter_def split: if_splits)
  have "length ?opts \<le> length strategies"
    unfolding List.map_filter_def by (metis length_filter_le length_map)
  then have len: "length ?opts \<le> 5" by (simp add: strategies_def)
  show ?thesis
    using loop types scheds len
    by (simp add: generate_five_options_def generate_single_option_def)
qed

text \<open>
  The witness: the solver runs out of time on four strategies and solves the fifth; the
  output is the fifth option alone.
\<close>

theorem five_options_drop_unsolved_strategies_witness:
  "lone_team \<noteq> [] \<and>
   (\<exists>options. generate_five_options lone_team example_slots only_fifth = Inr options \<and>
      map strategy_type options =
        filter (\<lambda>s. succeeded lone_team example_slots (only_fifth s)) (map fst strategies) \<and>
      length options \<le> 5) \<and>
   fst (only_fifth GROUP_BALANCE) \<noteq> OPTIMAL \<and> fst (only_fifth GROUP_BALANCE) \<noteq> FEASIBLE \<and>
   generate_single_option lone_team example_slots GROUP_BALANCE 4 (only_fifth GROUP_BALANCE) = None \<and>
   map_sum id (map (\<lambda>opt. (option_name opt, strategy_type opt)))
     (generate_five_options lone_team example_slots only_fifth) = Inr [(5, INTERVIEWER_CONSTRAINTS)]"
proof -
  have ne: "lone_team \<noteq> []" by (simp add: lone_team_def)
  have st: "fst (only_fifth GROUP_BALANCE) \<noteq> OPTIMAL \<and> fst (only_fifth GROUP_BALANCE) \<noteq> FEASIBLE"
    by (simp add: only_fifth_def)
  have ev: "map_sum id (map (\<lambda>opt. (option_name opt, strategy_type opt)))
     (generate_five_options lone_team example_slots only_fifth) = Inr [(5, INTERVIEWER_CONSTRAINTS)]"
    unfolding example_slots_rows by code_simp
  show ?thesis
    using five_options_drop_unsolved_strategies[of lone_team example_slots only_fifth] ne st ev
    by blast
qed

text \<open>
  The counterexample: with 169 teams and the 84 default slots no values satisfy the hard
  constraints, so every solve is infeasible; the single option is \<open>None\<close> and the output of
  the five-strategy entry point is the empty list.
\<close>

theorem infeasible_strategies_yield_no_option:
  "\<not> solvable too_many_teams example_slots no_constraints \<and>
   generate_single_option too_many_teams example_slots FIRST_PREFERENCE 1 (INFEASIBLE, idle) = None \<and>
   generate_five_options too_many_teams example_slots never_solved = Inr []"
proof -
  have "length too_many_teams = 169" by (simp add: too_many_teams_def)
  moreover have "example_slots \<noteq> []" using length_example_slots by auto
  ultimately have "\<And>fms v. \<not> hard_constraints fms too_many_teams example_slots no_constraints v"
    using capacity_bound[of too_many_teams example_slots] length_example_slots
    unfolding hard_constraints_def by fastforce
  then have "\<not> solvable too_many_teams example_slots no_constraints"
    by (simp add: solvable_def)
  moreover have "generate_single_option too_many_teams example_slots FIRST_PREFERENCE 1 (INFEASIBLE, idle) = None"
    by (simp add: generate_single_option_def)
  moreover have "too_many_teams \<noteq> []" by (simp add: too_many_teams_def)
  then have "generate_five_options too_many_teams example_slots never_solved = Inr []"
    by (simp add: generate_five_options_def strategies_def generate_single_option_def never_solved_def)
  ultimately show ?thesis by blast
qed

text \<open>
  The counterexample, in the exact solver. A team declares preferred time windows and
  nothing else; the model has a schedule variable for every slot and the preferences enter
  the hard constraints only through \<open>pref_var \<le> sum\<close>, which a preference variable of 0
  satisfies. The values \<open>afternoon\<close> satisfy every hard constraint, and the schedule read off
  puts the team that declared 09:00 to 09:30 into the slot \<open>s12\<close> from 14:00 to 14:30.
\<close>

theorem exact_solver_places_team_outside_declared_times:
  "hard_constraints matching_nine morning_team example_slots no_constraints afternoon \<and>
   map schedule_row (extract_solution morning_team example_slots afternoon) =
     [(''T1'', [''09:00-09:30''], ''s12'', ''14:00'', ''14:30'')]"
proof -
  have c1: "team_once morning_team example_slots afternoon"
    unfolding team_once_plain example_slots_rows by code_simp
  have c2: "slot_at_most_one morning_team example_slots afternoon"
    unfolding slot_at_most_one_plain example_slots_rows by code_simp
  have c3: "group_consistent morning_team example_slots afternoon"
    unfolding group_consistent_plain example_slots_rows by code_simp
  have c4: "preference_linked matching_nine morning_team example_slots afternoon"
    by (simp add: preference_linked_def morning_team_def afternoon_def Let_def)
  have c5: "avoidance_respected morning_team no_constraints afternoon"
    by code_simp
  have ex: "map schedule_row (extract_solution morning_team example_slots afternoon) =
     [(''T1'', [''09:00-09:30''], ''s12'', ''14:00'', ''14:30'')]"
    unfolding example_slots_rows by code_simp
  show ?thesis
    using c1 c2 c3 c4 c5 ex by (simp add: hard_constraints_def)
qed

section \<open>The gap score counts the empty slots after a block\<close>

text \<open>
  C3. The claim reads the gap score as the number of empty slots strictly between the first
  and the last occupied slot of a track on a date, so that one contiguous block scores 0.
  The loop of \<open>_calculate_gap_score\<close> never leaves a session once it has begun: every empty
  slot after the first occupied one is counted, also those after the last occupied slot.
  One team that can attend only the first Friday slot is placed there by the greedy engine
  (track A); its block is contiguous, and the score is 3, the three Friday slots that follow.
\<close>

theorem gap_score_single_block_first_friday_slot:
  "Option.bind new_scheduler
     (\<lambda>s0. Option.bind
        (schedule_interviews_continuous remdups
           (add_team ''T1'' [''9/12 19:00-19:45''] [] [] s0))
        (\<lambda>(schedule, st). map_option (\<lambda>score. (schedule, score)) (calculate_gap_score st)))
   = Some (([(''9/12 19:00-19:45'', ''T1'')], []), 3)"
  by code_simp

end
